theory Spec2Isabelle
  imports Main "HOL-Library.Multiset" "HOL-Library.Sublist"
begin

section \<open>Data model\<close>

text \<open>
  A request document as the component reads it: \<open>_id\<close> and \<open>_rev\<close> are always present on
  a stored document, every other property may be \<open>undefined\<close> (\<open>None\<close>). The properties the
  component never inspects (\<open>method\<close>, \<open>url\<close>, \<open>type\<close>, ...) are kept in \<open>extra\<close>, in
  insertion order. \<open>projectOrder\<close> is a JavaScript number; only integer values are modelled.
\<close>

record request =
  doc_id :: string
  doc_rev :: string
  name :: "string option"
  projectOrder :: "int option"
  legacyProject :: "string option"
  projects :: "string list option"
  extra :: "(string \<times> string) list"

text \<open>A project document of the \<open>legacy-projects\<close> store.\<close>

record project =
  project_id :: string
  requests :: "string list option"

text \<open>
  A thrown value or a rejection reason: its \<open>message\<close> property and what
  \<open>JSON.stringify\<close> makes of it.
\<close>

datatype jserror = JSError (message: "string option") (json: string)

text \<open>One row of an \<open>allDocs\<close> response and the response itself (\<open>rows\<close> may be missing).\<close>

record row =
  row_id :: "string option"
  row_error :: bool
  row_doc :: "request option"

datatype response = Rows "row list" | Malformed

text \<open>
  The two PouchDB handles the component opens. Every call may reject, so each
  operation returns a sum. The store itself is not part of the repository: the component
  is defined over any behaviour of these three operations.
\<close>

type_synonym projectDb = "string \<Rightarrow> jserror + project"

record savedDb =
  db_get :: "string \<Rightarrow> jserror + request"
  db_allDocs :: "jserror + response"
  db_allDocs_keys :: "string list \<Rightarrow> jserror + response"

text \<open>The events the element dispatches, and the element's own state.\<close>

datatype event =
    DataEvent "string option" "request list"
  | QueryingEvent bool
  | SendAnalytics string

record element =
  projectId :: "string option"
  data :: "request list option"
  querying :: "bool option"
  fullQuery :: bool
  events :: "event list"

definition initial :: element where
  "initial = \<lparr>projectId = None, data = None, querying = None, fullQuery = False, events = []\<rparr>"

section \<open>JavaScript primitives\<close>

text \<open>Truthiness of a value that is \<open>undefined\<close> or a string.\<close>

definition truthy :: "string option \<Rightarrow> bool" where
  "truthy v = (case v of None \<Rightarrow> False | Some s \<Rightarrow> s \<noteq> [])"

text \<open>\<open>Array.prototype.indexOf\<close>: the first index holding the element, or \<open>-1\<close>.\<close>

fun indexOf_from :: "'a list \<Rightarrow> 'a \<Rightarrow> int \<Rightarrow> int" where
  "indexOf_from [] v i = -1"
| "indexOf_from (x # xs) v i = (if x = v then i else indexOf_from xs v (i + 1))"

definition indexOf :: "'a list \<Rightarrow> 'a \<Rightarrow> int" where
  "indexOf xs v = indexOf_from xs v 0"

text \<open>\<open>Array.prototype.findIndex\<close>.\<close>

fun findIndex_from :: "('a \<Rightarrow> bool) \<Rightarrow> 'a list \<Rightarrow> int \<Rightarrow> int" where
  "findIndex_from p [] i = -1"
| "findIndex_from p (x # xs) i = (if p x then i else findIndex_from p xs (i + 1))"

definition findIndex :: "('a \<Rightarrow> bool) \<Rightarrow> 'a list \<Rightarrow> int" where
  "findIndex p xs = findIndex_from p xs 0"

text \<open>\<open>String.prototype.indexOf\<close>: the first position where the pattern starts, or \<open>-1\<close>.\<close>

fun str_indexOf_from :: "string \<Rightarrow> string \<Rightarrow> int \<Rightarrow> int" where
  "str_indexOf_from [] pat i = (if pat = [] then i else -1)"
| "str_indexOf_from (c # cs) pat i =
     (if prefix pat (c # cs) then i else str_indexOf_from cs pat (i + 1))"

definition str_indexOf :: "string \<Rightarrow> string \<Rightarrow> int" where
  "str_indexOf s pat = str_indexOf_from s pat 0"

text \<open>\<open>items.splice(i, 1)\<close>: the array without position \<open>i\<close>.\<close>

definition splice1 :: "'a list \<Rightarrow> nat \<Rightarrow> 'a list" where
  "splice1 xs i = take i xs @ drop (Suc i) xs"

text \<open>
  \<open>Array.prototype.sort(compareFn)\<close>. ECMAScript requires a stable sort and fixes the
  result when the comparison is consistent on the elements of the array, where every
  stable sort returns the same array. The model is the stable insertion sort: an element
  is placed before the first later element it does not compare greater than. When the
  comparison is not consistent on the array the result is left to the implementation, and
  an engine may return another arrangement than this one (\<open>engine_sort\<close> below).
\<close>

fun sort_insert :: "('a \<Rightarrow> 'a \<Rightarrow> int) \<Rightarrow> 'a \<Rightarrow> 'a list \<Rightarrow> 'a list" where
  "sort_insert cmp x [] = [x]"
| "sort_insert cmp x (y # ys) =
     (if cmp x y \<le> 0 then x # y # ys else y # sort_insert cmp x ys)"

definition array_sort :: "('a \<Rightarrow> 'a \<Rightarrow> int) \<Rightarrow> 'a list \<Rightarrow> 'a list" where
  "array_sort cmp xs = foldr (sort_insert cmp) xs []"

text \<open>
  What the V8 engine does with an array shorter than 64 elements, whatever the
  comparison: it takes the longest run at the start of the array that is ascending
  (no element compares less than the one before it) or strictly descending (every
  element compares less than the one before it), reverses a descending run, and then
  puts each remaining element in its place in the sorted part by binary search, after the
  elements it does not compare less than.
\<close>

fun run_length :: "('a \<Rightarrow> 'a \<Rightarrow> int) \<Rightarrow> bool \<Rightarrow> 'a \<Rightarrow> 'a list \<Rightarrow> nat" where
  "run_length cmp descending previous [] = 0"
| "run_length cmp descending previous (current # rest) =
     (if descending then
        (if 0 \<le> cmp current previous then 0
         else Suc (run_length cmp descending current rest))
      else
        (if cmp current previous < 0 then 0
         else Suc (run_length cmp descending current rest)))"

fun count_and_make_run :: "('a \<Rightarrow> 'a \<Rightarrow> int) \<Rightarrow> 'a list \<Rightarrow> 'a list \<times> 'a list" where
  "count_and_make_run cmp [] = ([], [])"
| "count_and_make_run cmp [x] = ([x], [])"
| "count_and_make_run cmp (x # y # rest) =
     (let descending = (cmp y x < 0);
          n = 2 + run_length cmp descending y rest;
          run = take n (x # y # rest)
      in (if descending then rev run else run, drop n (x # y # rest)))"

function binary_position :: "('a \<Rightarrow> 'a \<Rightarrow> int) \<Rightarrow> 'a \<Rightarrow> 'a list \<Rightarrow> nat \<Rightarrow> nat \<Rightarrow> nat" where
  "binary_position cmp pivot a left right =
     (if left < right then
        (let mid = left + (right - left) div 2
         in if cmp pivot (a ! mid) < 0 then binary_position cmp pivot a left mid
            else binary_position cmp pivot a (mid + 1) right)
      else left)"
  by pat_completeness auto
termination
  by (relation "measure (\<lambda>(cmp, pivot, a, left, right). right - left)") auto

declare binary_position.simps [simp del]

fun binary_insertion :: "('a \<Rightarrow> 'a \<Rightarrow> int) \<Rightarrow> 'a list \<Rightarrow> 'a list \<Rightarrow> 'a list" where
  "binary_insertion cmp a [] = a"
| "binary_insertion cmp a (pivot # rest) =
     (let left = binary_position cmp pivot a 0 (length a)
      in binary_insertion cmp (take left a @ pivot # drop left a) rest)"

definition engine_sort :: "('a \<Rightarrow> 'a \<Rightarrow> int) \<Rightarrow> 'a list \<Rightarrow> 'a list" where
  "engine_sort cmp xs =
     (case count_and_make_run cmp xs of (run, rest) \<Rightarrow> binary_insertion cmp run rest)"

text \<open>
  \<open>String.prototype.localeCompare\<close> belongs to the platform and depends on the locale;
  it is a parameter \<open>lc\<close> of everything that sorts. ECMAScript requires it to be a
  consistent comparison, which is the following predicate. \<open>ordinalCompare\<close>, the
  comparison by character codes, is one such function and serves in the examples.
\<close>

definition consistent :: "('a \<Rightarrow> 'a \<Rightarrow> int) \<Rightarrow> bool" where
  "consistent c \<longleftrightarrow>
     (\<forall>a b. (c a b < 0) = (0 < c b a)) \<and>
     (\<forall>a b d. c a b \<le> 0 \<longrightarrow> c b d \<le> 0 \<longrightarrow> c a d \<le> 0)"

fun ordinalCompare :: "string \<Rightarrow> string \<Rightarrow> int" where
  "ordinalCompare [] [] = 0"
| "ordinalCompare [] (y # ys) = -1"
| "ordinalCompare (x # xs) [] = 1"
| "ordinalCompare (x # xs) (y # ys) =
     (if (of_char x :: nat) < of_char y then -1
      else if (of_char y :: nat) < of_char x then 1
      else ordinalCompare xs ys)"

section \<open>The element: property setters\<close>

text \<open>
  \<open>set _querying(value)\<close> returns early when the value is the old one; otherwise it
  stores the value and dispatches \<open>querying\<close>.
\<close>

definition set_querying :: "bool \<Rightarrow> element \<Rightarrow> element" where
  "set_querying v st =
     (if querying st = Some v then st
      else st\<lparr>querying := Some v, events := events st @ [QueryingEvent v]\<rparr>)"

text \<open>
  \<open>set _data(value)\<close> compares by identity. Every caller in the component passes an
  array it has just allocated (a spread copy or the result of \<open>query\<close>), so the early
  return is never taken: the value is stored and \<open>data\<close> is dispatched with the current
  \<open>projectId\<close>. The reference held by \<open>data\<close> changes exactly when this setter runs.
\<close>

definition set_data :: "request list \<Rightarrow> element \<Rightarrow> element" where
  "set_data v st = st\<lparr>data := Some v, events := events st @ [DataEvent (projectId st) v]\<rparr>"

section \<open>Projection and sort\<close>

text \<open>\<open>_setDataScope\<close>: with \<open>fullQuery\<close> the list itself, otherwise a new object per item
  with the three properties \<open>_id\<close>, \<open>_rev\<close> and \<open>name\<close>.\<close>

definition scoped :: "request \<Rightarrow> request" where
  "scoped item = \<lparr>doc_id = doc_id item, doc_rev = doc_rev item, name = name item,
     projectOrder = None, legacyProject = None, projects = None, extra = []\<rparr>"

definition setDataScope :: "bool \<Rightarrow> request list \<Rightarrow> request list" where
  "setDataScope fq list = (if fq then list else map scoped list)"

text \<open>
  The comparison function of \<open>_prepareData\<close>. \<open>a.projectOrder > b.projectOrder\<close> is false
  as soon as one side is \<open>undefined\<close> (it converts to \<open>NaN\<close>), and so is \<open><\<close>.
\<close>

definition order_gt :: "int option \<Rightarrow> int option \<Rightarrow> bool" where
  "order_gt a b = (case (a, b) of (Some x, Some y) \<Rightarrow> y < x | _ \<Rightarrow> False)"

definition order_lt :: "int option \<Rightarrow> int option \<Rightarrow> bool" where
  "order_lt a b = (case (a, b) of (Some x, Some y) \<Rightarrow> x < y | _ \<Rightarrow> False)"

definition name_or_empty :: "request \<Rightarrow> string" where
  "name_or_empty a = (if truthy (name a) then the (name a) else [])"

definition compareRequests :: "(string \<Rightarrow> string \<Rightarrow> int) \<Rightarrow> request \<Rightarrow> request \<Rightarrow> int" where
  "compareRequests lc a b =
     (if order_gt (projectOrder a) (projectOrder b) then 1
      else if order_lt (projectOrder a) (projectOrder b) then -1
      else lc (name_or_empty a) (name_or_empty b))"

text \<open>
  \<open>_prepareData\<close> returns a new empty array for an empty list and otherwise sorts the
  list in place and returns it. \<open>sorted_in_place\<close> is the argument array after the call.
\<close>

definition prepareData :: "(string \<Rightarrow> string \<Rightarrow> int) \<Rightarrow> request list \<Rightarrow> request list" where
  "prepareData lc list =
     (if length list = 0 then [] else array_sort (compareRequests lc) list)"

definition sorted_in_place :: "(string \<Rightarrow> string \<Rightarrow> int) \<Rightarrow> request list \<Rightarrow> request list" where
  "sorted_in_place lc list =
     (if length list = 0 then list else array_sort (compareRequests lc) list)"

text \<open>\<open>_prepareData\<close> as that engine runs it.\<close>

definition prepareData_v8 :: "(string \<Rightarrow> string \<Rightarrow> int) \<Rightarrow> request list \<Rightarrow> request list" where
  "prepareData_v8 lc list =
     (if length list = 0 then [] else engine_sort (compareRequests lc) list)"

section \<open>The query engine\<close>

definition type_error :: jserror where
  "type_error = JSError (Some ''TypeError'') ''{}''"

definition missing_id :: jserror where
  "missing_id =
     JSError (Some (''The '' @ [CHR 0x22] @ ''id'' @ [CHR 0x22] @ '' argument is missing'')) ''{}''"

definition readProjectRequests :: "projectDb \<Rightarrow> string \<Rightarrow> jserror + string list" where
  "readProjectRequests pdb pid =
     (case pdb pid of
        Inl cause \<Rightarrow> Inl cause
      | Inr doc \<Rightarrow> Inr (case requests doc of None \<Rightarrow> [] | Some keys \<Rightarrow> keys))"

text \<open>The \<open>forEach\<close> of \<open>_getProjectRequest\<close>, appending to \<open>result\<close>.\<close>

fun collect_docs :: "row list \<Rightarrow> request list \<Rightarrow> request list" where
  "collect_docs [] result = result"
| "collect_docs (item # rest) result =
     collect_docs rest
       (if \<not> row_error item \<and> row_doc item \<noteq> None then result @ [the (row_doc item)]
        else result)"

definition getProjectRequest :: "savedDb \<Rightarrow> string list \<Rightarrow> jserror + request list" where
  "getProjectRequest sdb keys =
     (case db_allDocs_keys sdb keys of
        Inl cause \<Rightarrow> Inl cause
      | Inr Malformed \<Rightarrow> Inl type_error
      | Inr (Rows rows) \<Rightarrow> Inr (collect_docs rows []))"

text \<open>\<open>_filterRequests\<close>; reading \<open>item.id.indexOf\<close> of a row without \<open>id\<close> throws.\<close>

fun filter_rows :: "string \<Rightarrow> row list \<Rightarrow> jserror + row list" where
  "filter_rows pid [] = Inr []"
| "filter_rows pid (item # rest) =
     (case row_id item of
        None \<Rightarrow> Inl type_error
      | Some i \<Rightarrow>
          (case filter_rows pid rest of
             Inl cause \<Rightarrow> Inl cause
           | Inr kept \<Rightarrow> Inr (if str_indexOf i pid \<noteq> -1 then item # kept else kept)))"

definition filterRequests :: "response \<Rightarrow> string \<Rightarrow> jserror + row list" where
  "filterRequests dbResponse pid =
     (case dbResponse of Malformed \<Rightarrow> Inl type_error | Rows rows \<Rightarrow> filter_rows pid rows)"

text \<open>\<open>Promise.all(response.map((item) => db.get(item.id)))\<close>: all documents, or a
  rejection (the first one in list order).\<close>

fun get_each :: "savedDb \<Rightarrow> row list \<Rightarrow> jserror + request list" where
  "get_each sdb [] = Inr []"
| "get_each sdb (item # rest) =
     (case db_get sdb (the (row_id item)) of
        Inl cause \<Rightarrow> Inl cause
      | Inr doc \<Rightarrow>
          (case get_each sdb rest of Inl cause \<Rightarrow> Inl cause | Inr docs \<Rightarrow> Inr (doc # docs)))"

text \<open>
  \<open>_tryLegacy\<close>. The value \<open>_prepareData\<close> returns is overwritten; the scope is applied
  to \<open>response\<close>, which the call has sorted in place.
\<close>

definition tryLegacy ::
  "(string \<Rightarrow> string \<Rightarrow> int) \<Rightarrow> savedDb \<Rightarrow> string \<Rightarrow> element \<Rightarrow> (jserror + request list) \<times> element" where
  "tryLegacy lc sdb pid st =
     (case db_allDocs sdb of
        Inl cause \<Rightarrow> (Inl cause, st)
      | Inr response0 \<Rightarrow>
          (case filterRequests response0 pid of
             Inl cause \<Rightarrow> (Inl cause, st)
           | Inr response1 \<Rightarrow>
               (case get_each sdb response1 of
                  Inl cause \<Rightarrow> (Inl cause, st)
                | Inr response \<Rightarrow>
                    (let response' = sorted_in_place lc response;
                         result = setDataScope (fullQuery st) response'
                     in (Inr result, set_querying False st)))))"

text \<open>The \<open>try\<close> block of \<open>query\<close>: \<open>Inl\<close> is a throw, with the state at that point.\<close>

definition query_try ::
  "(string \<Rightarrow> string \<Rightarrow> int) \<Rightarrow> projectDb \<Rightarrow> savedDb \<Rightarrow> string \<Rightarrow> element \<Rightarrow> (jserror + request list) \<times> element" where
  "query_try lc pdb sdb pid st =
     (case readProjectRequests pdb pid of
        Inl cause \<Rightarrow> (Inl cause, st)
      | Inr keys \<Rightarrow>
          if length keys = 0 then tryLegacy lc sdb pid st
          else
            (case getProjectRequest sdb keys of
               Inl cause \<Rightarrow> (Inl cause, st)
             | Inr requests0 \<Rightarrow>
                 (let requests1 = prepareData lc requests0;
                      requests2 = setDataScope (fullQuery st) requests1
                  in (Inr requests2, set_querying False st))))"

text \<open>The \<open>catch\<close> block.\<close>

definition cause_message :: "jserror \<Rightarrow> string" where
  "cause_message cause = (if truthy (message cause) then the (message cause) else json cause)"

definition query_catch :: "jserror \<Rightarrow> element \<Rightarrow> (jserror + request list) \<times> element" where
  "query_catch cause st =
     (let st1 = set_querying False st;
          st2 = st1\<lparr>events := events st1 @ [SendAnalytics (cause_message cause)]\<rparr>
      in (Inr [], st2))"

text \<open>\<open>query(id)\<close>: \<open>Inl\<close> is a rejected promise, \<open>Inr\<close> the list it resolves to.\<close>

definition query ::
  "(string \<Rightarrow> string \<Rightarrow> int) \<Rightarrow> projectDb \<Rightarrow> savedDb \<Rightarrow> string option \<Rightarrow> element \<Rightarrow> (jserror + request list) \<times> element" where
  "query lc pdb sdb pid st =
     (if \<not> truthy pid then (Inl missing_id, st)
      else
        (case query_try lc pdb sdb (the pid) (set_querying True st) of
           (Inl cause, st') \<Rightarrow> query_catch cause st'
         | (Inr result, st') \<Rightarrow> (Inr result, st')))"

text \<open>\<open>_autoQuery\<close> and the \<open>projectId\<close> setter.\<close>

definition autoQuery ::
  "(string \<Rightarrow> string \<Rightarrow> int) \<Rightarrow> projectDb \<Rightarrow> savedDb \<Rightarrow> string option \<Rightarrow> element \<Rightarrow> element" where
  "autoQuery lc pdb sdb pid st =
     (if \<not> truthy pid then st
      else
        (case query lc pdb sdb pid st of
           (Inl cause, st') \<Rightarrow> st'
         | (Inr result, st') \<Rightarrow> set_data result st'))"

definition set_projectId ::
  "(string \<Rightarrow> string \<Rightarrow> int) \<Rightarrow> projectDb \<Rightarrow> savedDb \<Rightarrow> string option \<Rightarrow> element \<Rightarrow> element" where
  "set_projectId lc pdb sdb v st =
     (if projectId st = v then st else autoQuery lc pdb sdb v (st\<lparr>projectId := v\<rparr>))"

section \<open>Live sync\<close>

text \<open>\<open>_requestObjectChanged\<close>; \<open>cancelable\<close> and \<open>detail\<close> are the event's. The handler
  does not read \<open>detail.oldId\<close>.\<close>

definition related_projects :: "request \<Rightarrow> string list" where
  "related_projects request =
     (let projects0 = (if truthy (legacyProject request) then [the (legacyProject request)] else [])
      in case projects request of None \<Rightarrow> projects0 | Some ps \<Rightarrow> projects0 @ ps)"

definition is_related :: "request \<Rightarrow> string option \<Rightarrow> bool" where
  "is_related request pid =
     (case pid of None \<Rightarrow> False | Some p \<Rightarrow> indexOf (related_projects request) p \<noteq> -1)"

definition requestObjectChanged ::
  "(string \<Rightarrow> string \<Rightarrow> int) \<Rightarrow> bool \<Rightarrow> request \<Rightarrow> string option \<Rightarrow> element \<Rightarrow> element" where
  "requestObjectChanged lc cancelable request oldId st =
     (if cancelable then st
      else if \<not> is_related request (projectId st) then st
      else
        (let items = (case data st of None \<Rightarrow> [] | Some xs \<Rightarrow> xs)
         in if length items = 0 then set_data [request] st
            else
              (let index = findIndex (\<lambda>item. doc_id item = doc_id request) items;
                   items1 = (if index = -1 then items @ [request]
                             else items[nat index := request]);
                   items2 = prepareData lc items1
               in set_data items2 st)))"

text \<open>The loop of \<open>_checkDeleted\<close>, from the last index down, with its \<open>changed\<close> flag.\<close>

function checkDeleted_loop ::
  "string list \<Rightarrow> request list \<Rightarrow> int \<Rightarrow> bool \<Rightarrow> request list \<times> bool" where
  "checkDeleted_loop ids items i changed =
     (if 0 \<le> i then
        (if indexOf ids (doc_id (items ! nat i)) \<noteq> -1
         then checkDeleted_loop ids (splice1 items (nat i)) (i - 1) True
         else checkDeleted_loop ids items (i - 1) changed)
      else (items, changed))"
  by pat_completeness auto
termination
  by (relation "measure (\<lambda>(ids, items, i, changed). nat (i + 1))") auto

declare checkDeleted_loop.simps [simp del]

definition checkDeleted :: "string list \<Rightarrow> element \<Rightarrow> element" where
  "checkDeleted ids st =
     (case data st of
        None \<Rightarrow> st
      | Some items \<Rightarrow>
          if length items = 0 then st
          else
            (case checkDeleted_loop ids items (int (length items) - 1) False of
               (items', changed) \<Rightarrow> if changed then set_data items' st else st))"

definition requestObjectDeleted :: "bool \<Rightarrow> string option \<Rightarrow> element \<Rightarrow> element" where
  "requestObjectDeleted cancelable rid st =
     (if cancelable then st
      else if \<not> truthy rid then st
      else checkDeleted [the rid] st)"

definition requestObjectsDeleted :: "bool \<Rightarrow> string list option \<Rightarrow> element \<Rightarrow> element" where
  "requestObjectsDeleted cancelable ids st =
     (if cancelable then st
      else (case ids of
              None \<Rightarrow> st
            | Some l \<Rightarrow> if length l = 0 then st else checkDeleted l st))"

section \<open>The component as a state machine\<close>

text \<open>
  What can happen to an element: a \<open>projectId\<close> assignment (with the two stores as they
  are at that moment), a \<open>fullQuery\<close> assignment, a direct \<open>query\<close> call, and the three
  window events. An asynchronous call runs to completion before the next operation.
\<close>

datatype op =
    SetProjectId "string option" projectDb savedDb
  | SetFullQuery bool
  | Query "string option" projectDb savedDb
  | Changed bool request "string option"
  | Deleted bool "string option"
  | BulkDeleted bool "string list option"

fun step :: "(string \<Rightarrow> string \<Rightarrow> int) \<Rightarrow> op \<Rightarrow> element \<Rightarrow> element" where
  "step lc (SetProjectId v pdb sdb) st = set_projectId lc pdb sdb v st"
| "step lc (SetFullQuery b) st = st\<lparr>fullQuery := b\<rparr>"
| "step lc (Query pid pdb sdb) st = snd (query lc pdb sdb pid st)"
| "step lc (Changed cancelable request oldId) st = requestObjectChanged lc cancelable request oldId st"
| "step lc (Deleted cancelable rid) st = requestObjectDeleted cancelable rid st"
| "step lc (BulkDeleted cancelable ids) st = requestObjectsDeleted cancelable ids st"

definition run :: "(string \<Rightarrow> string \<Rightarrow> int) \<Rightarrow> op list \<Rightarrow> element \<Rightarrow> element" where
  "run lc ops st = foldl (\<lambda>s x. step lc x s) st ops"

text \<open>The identifiers on the published list (none while \<open>data\<close> is \<open>undefined\<close>).\<close>

definition data_ids :: "element \<Rightarrow> string list" where
  "data_ids st = (case data st of None \<Rightarrow> [] | Some items \<Rightarrow> map doc_id items)"

text \<open>How many \<open>data\<close> events a log holds.\<close>

definition publishes :: "event list \<Rightarrow> nat" where
  "publishes evs = length (filter (\<lambda>e. case e of DataEvent p items \<Rightarrow> True | _ \<Rightarrow> False) evs)"

text \<open>
  The store answers a lookup of \<open>pid\<close> without duplicates: the bulk read returns no
  document twice, the listing names no identifier twice and a read by identifier returns
  the document with that identifier.
\<close>

definition returns_doc_asked :: "savedDb \<Rightarrow> row \<Rightarrow> bool" where
  "returns_doc_asked sdb item =
     (case row_id item of
        None \<Rightarrow> True
      | Some k \<Rightarrow> (case db_get sdb k of Inl cause \<Rightarrow> True | Inr doc \<Rightarrow> doc_id doc = k))"

definition duplicate_free :: "projectDb \<Rightarrow> savedDb \<Rightarrow> string \<Rightarrow> bool" where
  "duplicate_free pdb sdb pid =
     (case readProjectRequests pdb pid of
        Inl cause \<Rightarrow> True
      | Inr keys \<Rightarrow>
          if keys = [] then
            (case db_allDocs sdb of
               Inr (Rows rows) \<Rightarrow>
                 distinct (List.map_filter row_id rows) \<and> list_all (returns_doc_asked sdb) rows
             | _ \<Rightarrow> True)
          else
            (case db_allDocs_keys sdb keys of
               Inr (Rows rows) \<Rightarrow> distinct (map doc_id (collect_docs rows []))
             | _ \<Rightarrow> True))"

fun op_ok :: "op \<Rightarrow> bool" where
  "op_ok (SetProjectId v pdb sdb) = (case v of None \<Rightarrow> True | Some pid \<Rightarrow> duplicate_free pdb sdb pid)"
| "op_ok x = True"

section \<open>The store\<close>

text \<open>
  Modelled from the spec: the embedded document store (PouchDB), which is not part of
  the repository. Section 6 of the specification requires get-by-id, list-all and
  bulk-get-by-keys. A database is offline (every call rejects) or holds its documents in
  key order, \<open>None\<close> marking a deleted document. A read of a missing or deleted document
  rejects; the listing has one row per live document; the bulk read has one row per
  requested key, an error row for an unknown key and a row without \<open>doc\<close> for a deleted
  document.
\<close>

datatype 'a store = Offline jserror | Online "(string \<times> 'a option) list"

definition not_found :: jserror where
  "not_found = JSError (Some ''missing'') ''{}''"

definition store_get :: "'a store \<Rightarrow> string \<Rightarrow> jserror + 'a" where
  "store_get s k =
     (case s of
        Offline cause \<Rightarrow> Inl cause
      | Online kvs \<Rightarrow>
          (case map_of kvs k of Some (Some d) \<Rightarrow> Inr d | _ \<Rightarrow> Inl not_found))"

definition listing_row :: "string \<times> request option \<Rightarrow> row option" where
  "listing_row kv =
     (case snd kv of
        None \<Rightarrow> None
      | Some d \<Rightarrow> Some \<lparr>row_id = Some (fst kv), row_error = False, row_doc = None\<rparr>)"

definition store_allDocs :: "request store \<Rightarrow> jserror + response" where
  "store_allDocs s =
     (case s of
        Offline cause \<Rightarrow> Inl cause
      | Online kvs \<Rightarrow> Inr (Rows (List.map_filter listing_row kvs)))"

definition key_row :: "(string \<times> request option) list \<Rightarrow> string \<Rightarrow> row" where
  "key_row kvs k =
     (case map_of kvs k of
        None \<Rightarrow> \<lparr>row_id = None, row_error = True, row_doc = None\<rparr>
      | Some v \<Rightarrow> \<lparr>row_id = Some k, row_error = False, row_doc = v\<rparr>)"

definition store_allDocs_keys :: "request store \<Rightarrow> string list \<Rightarrow> jserror + response" where
  "store_allDocs_keys s keys =
     (case s of
        Offline cause \<Rightarrow> Inl cause
      | Online kvs \<Rightarrow> Inr (Rows (map (key_row kvs) keys)))"

definition pouch :: "request store \<Rightarrow> savedDb" where
  "pouch s = \<lparr>db_get = store_get s, db_allDocs = store_allDocs s,
     db_allDocs_keys = store_allDocs_keys s\<rparr>"

text \<open>The documents of the list \<open>keys\<close> that resolve in the store, in the order of the list.\<close>

definition resolve :: "(string \<times> request option) list \<Rightarrow> string \<Rightarrow> request option" where
  "resolve kvs k = (case map_of kvs k of Some (Some d) \<Rightarrow> Some d | _ \<Rightarrow> None)"

definition resolved :: "(string \<times> request option) list \<Rightarrow> string list \<Rightarrow> request list" where
  "resolved kvs keys = List.map_filter (resolve kvs) keys"

text \<open>The live documents whose identifier contains \<open>pid\<close>, in key order.\<close>

definition live_match :: "string \<Rightarrow> string \<times> request option \<Rightarrow> request option" where
  "live_match pid kv = (if sublist pid (fst kv) then snd kv else None)"

definition matching :: "(string \<times> request option) list \<Rightarrow> string \<Rightarrow> request list" where
  "matching kvs pid = List.map_filter (live_match pid) kvs"

section \<open>The ordering the specification describes\<close>

text \<open>
  Following the words of the specification: ascending by \<open>projectOrder\<close>, a missing or
  equal \<open>projectOrder\<close> being a tie, and ties broken by the ascending comparison of the
  names, the empty string standing for an absent name. \<open>spec_ordered lc a b\<close> says that
  \<open>a\<close> may stand before \<open>b\<close>.
\<close>

definition spec_ordered :: "(string \<Rightarrow> string \<Rightarrow> int) \<Rightarrow> request \<Rightarrow> request \<Rightarrow> bool" where
  "spec_ordered lc a b =
     (case (projectOrder a, projectOrder b) of
        (Some x, Some y) \<Rightarrow>
          x < y \<or> (x = y \<and> lc (name_or_empty a) (name_or_empty b) \<le> 0)
      | _ \<Rightarrow> lc (name_or_empty a) (name_or_empty b) \<le> 0)"

text \<open>Two records tie on both keys.\<close>

definition tied :: "(string \<Rightarrow> string \<Rightarrow> int) \<Rightarrow> request \<Rightarrow> request \<Rightarrow> bool" where
  "tied lc a b \<longleftrightarrow>
     projectOrder a = projectOrder b \<and> lc (name_or_empty a) (name_or_empty b) = 0"

text \<open>Every record has a \<open>projectOrder\<close>, or none has.\<close>

definition uniform_order :: "request list \<Rightarrow> bool" where
  "uniform_order xs \<longleftrightarrow>
     list_all (\<lambda>x. projectOrder x \<noteq> None) xs \<or> list_all (\<lambda>x. projectOrder x = None) xs"

text \<open>
  The comparison of \<open>_prepareData\<close> is consistent on a list: it is transitive on the
  records of the list. (Its other property, that swapping the arguments swaps the sign,
  it has on all records when \<open>lc\<close> is consistent.)
\<close>

definition consistent_on :: "(string \<Rightarrow> string \<Rightarrow> int) \<Rightarrow> request list \<Rightarrow> bool" where
  "consistent_on lc xs \<longleftrightarrow>
     list_all (\<lambda>x. list_all (\<lambda>y. list_all (\<lambda>z.
       \<not> (compareRequests lc x y \<le> 0 \<and> compareRequests lc y z \<le> 0 \<and>
          0 < compareRequests lc x z)) xs) xs) xs"

section \<open>Live sync as the specification describes it\<close>

text \<open>
  Following the words of the specification. \<open>upsert\<close>: find an existing entry by the
  record's identifier, replace it if found, append if not. \<open>spec_remove\<close>: remove any
  entry whose identifier matches; if at least one was removed, publish the updated list;
  nothing happens if nothing matched or no list exists.
\<close>

fun upsert :: "request \<Rightarrow> request list \<Rightarrow> request list" where
  "upsert r [] = [r]"
| "upsert r (x # xs) = (if doc_id x = doc_id r then r # xs else x # upsert r xs)"

definition spec_remove :: "string list \<Rightarrow> element \<Rightarrow> element" where
  "spec_remove ids st =
     (case data st of
        None \<Rightarrow> st
      | Some items \<Rightarrow>
          if list_ex (\<lambda>x. doc_id x \<in> set ids) items
          then set_data (filter (\<lambda>x. doc_id x \<notin> set ids) items) st
          else st)"

section \<open>Example documents\<close>

definition saved_request :: "string \<Rightarrow> string \<Rightarrow> int option \<Rightarrow> string option \<Rightarrow> request" where
  "saved_request i n ord proj =
     \<lparr>doc_id = i, doc_rev = ''1-a'', name = Some n, projectOrder = ord, legacyProject = proj,
      projects = None, extra = [(''method'', ''GET'')]\<rparr>"

definition alpha :: request where
  "alpha = saved_request ''a'' ''Alpha'' (Some 1) (Some ''P1'')"

definition beta :: request where
  "beta = saved_request ''b'' ''Beta'' (Some 2) (Some ''P1'')"

definition gamma :: request where
  "gamma = saved_request ''c'' ''Gamma'' None (Some ''P1'')"

definition omega :: request where
  "omega = saved_request ''o'' ''Omega'' (Some 1) (Some ''P1'')"

definition omega2 :: request where
  "omega2 = saved_request ''o2'' ''Omega'' (Some 1) (Some ''P1'')"

definition alpha2 :: request where
  "alpha2 = saved_request ''a2'' ''Alpha'' (Some 1) (Some ''P1'')"

text \<open>Alpha after its identifier has changed.\<close>

definition renamed :: request where
  "renamed = alpha\<lparr>doc_id := ''a-new''\<rparr>"

definition legacy1 :: request where
  "legacy1 = saved_request ''P2/x'' ''Legacy one'' None None"

definition legacy2 :: request where
  "legacy2 = saved_request ''P3/y'' ''Legacy two'' None None"

text \<open>Project \<open>P1\<close> lists its requests (one unknown, one deleted), \<open>P2\<close> has no list and
  there is no document for \<open>P3\<close>.\<close>

definition project_docs :: "(string \<times> project option) list" where
  "project_docs =
     [(''P1'', Some \<lparr>project_id = ''P1'', requests = Some [''b'', ''gone'', ''d'', ''a'']\<rparr>),
      (''P2'', Some \<lparr>project_id = ''P2'', requests = None\<rparr>)]"

definition saved_docs :: "(string \<times> request option) list" where
  "saved_docs =
     [(''P2/x'', Some legacy1), (''P3/y'', Some legacy2), (''a'', Some alpha), (''b'', Some beta),
      (''c'', Some gamma), (''d'', None)]"

text \<open>An element showing three whole documents of project \<open>P1\<close>.\<close>

definition listed :: element where
  "listed = \<lparr>projectId = Some ''P1'', data = Some [alpha, beta, gamma], querying = Some False,
     fullQuery = True, events = []\<rparr>"

section \<open>Properties of the sort\<close>

lemma mset_sort_insert: "mset (sort_insert cmp x ys) = add_mset x (mset ys)"
  by (induction ys) auto

lemma mset_array_sort: "mset (array_sort cmp xs) = mset xs"
  by (induction xs) (auto simp: array_sort_def mset_sort_insert)

lemma set_array_sort: "set (array_sort cmp xs) = set xs"
  using mset_array_sort [of cmp xs] by (metis set_mset_mset)

lemma array_sort_Cons: "array_sort cmp (x # xs) = sort_insert cmp x (array_sort cmp xs)"
  by (simp add: array_sort_def)

lemma successively_sort_insert:
  assumes "\<And>y. y \<in> set ys \<Longrightarrow> 0 < cmp x y \<Longrightarrow> cmp y x \<le> 0"
    and "successively (\<lambda>a b. cmp a b \<le> 0) ys"
  shows "successively (\<lambda>a b. cmp a b \<le> 0) (sort_insert cmp x ys)"
  using assms
proof (induction ys rule: induct_list012)
  case 1
  then show ?case by simp
next
  case (2 y)
  have "0 < cmp x y \<Longrightarrow> cmp y x \<le> 0" using 2(1) by simp
  then show ?case by auto
next
  case (3 y z zs)
  have yx: "0 < cmp x y \<Longrightarrow> cmp y x \<le> 0" using 3(3) by simp
  have yz: "cmp y z \<le> 0" using 3(4) by simp
  have ih: "successively (\<lambda>a b. cmp a b \<le> 0) (sort_insert cmp x (z # zs))"
    using 3(2) 3(3) 3(4) by simp
  show ?case
  proof (cases "cmp x y \<le> 0")
    case True
    with 3(4) show ?thesis by simp
  next
    case False
    then have "cmp y x \<le> 0" using yx by simp
    with False yz ih show ?thesis by (cases "cmp x z \<le> 0") simp_all
  qed
qed

lemma successively_array_sort:
  assumes "\<And>x y. x \<in> set xs \<Longrightarrow> y \<in> set xs \<Longrightarrow> 0 < cmp x y \<Longrightarrow> cmp y x \<le> 0"
  shows "successively (\<lambda>a b. cmp a b \<le> 0) (array_sort cmp xs)"
  using assms
proof (induction xs)
  case Nil
  then show ?case by (simp add: array_sort_def)
next
  case (Cons x xs)
  have "successively (\<lambda>a b. cmp a b \<le> 0) (array_sort cmp xs)"
    using Cons by simp
  then show ?case
    unfolding array_sort_Cons
    by (rule successively_sort_insert [rotated]) (simp add: set_array_sort Cons.prems)
qed

lemma array_sort_fixpoint:
  "successively (\<lambda>a b. cmp a b \<le> 0) xs \<Longrightarrow> array_sort cmp xs = xs"
proof (induction xs)
  case Nil
  then show ?case by (simp add: array_sort_def)
next
  case (Cons x xs)
  then show ?case
    by (cases xs) (auto simp: array_sort_Cons)
qed

lemma filter_sort_insert:
  assumes "\<And>y. y \<in> set ys \<Longrightarrow> P x \<Longrightarrow> P y \<Longrightarrow> cmp x y \<le> 0"
  shows "filter P (sort_insert cmp x ys) = (if P x then x # filter P ys else filter P ys)"
  using assms by (induction ys) auto

lemma filter_array_sort:
  assumes "\<And>x y. x \<in> set xs \<Longrightarrow> y \<in> set xs \<Longrightarrow> P x \<Longrightarrow> P y \<Longrightarrow> cmp x y \<le> 0"
  shows "filter P (array_sort cmp xs) = filter P xs"
  using assms
proof (induction xs)
  case Nil
  then show ?case by (simp add: array_sort_def)
next
  case (Cons x xs)
  have "filter P (array_sort cmp xs) = filter P xs" using Cons by simp
  moreover have "filter P (sort_insert cmp x (array_sort cmp xs)) =
      (if P x then x # filter P (array_sort cmp xs) else filter P (array_sort cmp xs))"
    by (rule filter_sort_insert) (simp add: set_array_sort Cons.prems)
  ultimately show ?case by (simp add: array_sort_Cons)
qed

lemma sorted_wrt_array_sort:
  assumes "\<And>x y. x \<in> set xs \<Longrightarrow> y \<in> set xs \<Longrightarrow> 0 < cmp x y \<Longrightarrow> cmp y x \<le> 0"
    and "\<And>x y z. x \<in> set xs \<Longrightarrow> y \<in> set xs \<Longrightarrow> z \<in> set xs \<Longrightarrow>
           cmp x y \<le> 0 \<Longrightarrow> cmp y z \<le> 0 \<Longrightarrow> cmp x z \<le> 0"
  shows "sorted_wrt (\<lambda>a b. cmp a b \<le> 0) (array_sort cmp xs)"
proof -
  have "successively (\<lambda>a b. cmp a b \<le> 0) (array_sort cmp xs)"
    by (rule successively_array_sort) (rule assms(1))
  moreover have "successively (\<lambda>a b. cmp a b \<le> 0) (array_sort cmp xs) \<longleftrightarrow>
      sorted_wrt (\<lambda>a b. cmp a b \<le> 0) (array_sort cmp xs)"
    by (rule successively_iff_sorted_wrt_strong) (simp only: set_array_sort, rule assms(2))
  ultimately show ?thesis by simp
qed

text \<open>The engine: a list whose neighbours are in order is one ascending run and is returned as it is.\<close>

lemma run_length_ascending:
  assumes "\<And>a b. cmp a b \<le> 0 \<Longrightarrow> \<not> cmp b a < 0"
    and "successively (\<lambda>a b. cmp a b \<le> 0) (previous # rest)"
  shows "run_length cmp False previous rest = length rest"
  using assms(2)
proof (induction rest arbitrary: previous)
  case Nil
  then show ?case by simp
next
  case (Cons current rest)
  then have "cmp previous current \<le> 0" "successively (\<lambda>a b. cmp a b \<le> 0) (current # rest)"
    by simp_all
  with Cons.IH [of current] assms(1) [of previous current] show ?case by simp
qed

lemma engine_sort_fixpoint:
  assumes "\<And>a b. cmp a b \<le> 0 \<Longrightarrow> \<not> cmp b a < 0"
    and "successively (\<lambda>a b. cmp a b \<le> 0) xs"
  shows "engine_sort cmp xs = xs"
proof (cases xs)
  case Nil
  then show ?thesis by (simp add: engine_sort_def)
next
  case (Cons x ys)
  show ?thesis
  proof (cases ys)
    case Nil
    with Cons show ?thesis by (simp add: engine_sort_def)
  next
    case (Cons y rest)
    with \<open>xs = x # ys\<close> have xs: "xs = x # y # rest" by simp
    with assms(2) have xy: "cmp x y \<le> 0" and s: "successively (\<lambda>a b. cmp a b \<le> 0) (y # rest)"
      by simp_all
    have "\<not> cmp y x < 0" using assms(1) xy by blast
    moreover have "run_length cmp False y rest = length rest"
      using assms(1) s by (rule run_length_ascending)
    ultimately show ?thesis by (simp add: engine_sort_def xs Let_def)
  qed
qed

text \<open>The engine: neighbours of the result are in order, for every list.\<close>

lemma run_ascending:
  "successively (\<lambda>a b. \<not> cmp b a < 0) (previous # take (run_length cmp False previous rest) rest)"
proof (induction rest arbitrary: previous)
  case Nil
  then show ?case by simp
next
  case (Cons current rest)
  show ?case
  proof (cases "cmp current previous < 0")
    case True
    then show ?thesis by simp
  next
    case False
    with Cons [of current] show ?thesis by simp
  qed
qed

lemma run_descending:
  "successively (\<lambda>a b. cmp b a < 0) (previous # take (run_length cmp True previous rest) rest)"
proof (induction rest arbitrary: previous)
  case Nil
  then show ?case by simp
next
  case (Cons current rest)
  show ?case
  proof (cases "0 \<le> cmp current previous")
    case True
    then show ?thesis by simp
  next
    case False
    with Cons [of current] show ?thesis by simp
  qed
qed

lemma count_and_make_run_ordered:
  assumes "\<And>a b. 0 < cmp a b \<Longrightarrow> cmp b a < 0"
  shows "successively (\<lambda>a b. cmp a b \<le> 0) (fst (count_and_make_run cmp xs))"
proof (cases xs)
  case Nil
  then show ?thesis by simp
next
  case (Cons x ys)
  show ?thesis
  proof (cases ys)
    case Nil
    with Cons show ?thesis by simp
  next
    case (Cons y rest)
    with \<open>xs = x # ys\<close> have xs: "xs = x # y # rest" by simp
    show ?thesis
    proof (cases "cmp y x < 0")
      case True
      have "successively (\<lambda>a b. cmp b a < 0) (x # y # take (run_length cmp True y rest) rest)"
        using True run_descending [of cmp y rest] by simp
      then have "successively (\<lambda>a b. cmp a b < 0)
          (rev (x # y # take (run_length cmp True y rest) rest))"
        by (simp only: successively_rev)
      then have "successively (\<lambda>a b. cmp a b \<le> 0)
          (rev (x # y # take (run_length cmp True y rest) rest))"
        by (rule successively_mono) simp
      with True show ?thesis by (simp add: xs Let_def)
    next
      case False
      have "successively (\<lambda>a b. \<not> cmp b a < 0) (x # y # take (run_length cmp False y rest) rest)"
        using False run_ascending [of cmp y rest] by simp
      then have "successively (\<lambda>a b. cmp a b \<le> 0)
          (x # y # take (run_length cmp False y rest) rest)"
        by (rule successively_mono) (use assms in force)
      with False show ?thesis by (simp add: xs Let_def)
    qed
  qed
qed

lemma binary_position_neighbours:
  "left \<le> right \<Longrightarrow> right \<le> length a \<Longrightarrow>
   left = 0 \<or> 0 \<le> cmp pivot (a ! (left - 1)) \<Longrightarrow>
   right = length a \<or> cmp pivot (a ! right) < 0 \<Longrightarrow>
   binary_position cmp pivot a left right \<le> length a \<and>
   (binary_position cmp pivot a left right = 0 \<or>
      0 \<le> cmp pivot (a ! (binary_position cmp pivot a left right - 1))) \<and>
   (binary_position cmp pivot a left right = length a \<or>
      cmp pivot (a ! binary_position cmp pivot a left right) < 0)"
proof (induction cmp pivot a left right rule: binary_position.induct)
  case (1 cmp pivot a left right)
  show ?case
  proof (cases "left < right")
    case False
    with "1.prems" have "left = right" by simp
    with "1.prems" False show ?thesis
      by (subst (1 2 3 4 5) binary_position.simps) auto
  next
    case True
    define mid where "mid = left + (right - left) div 2"
    have m: "left \<le> mid" "mid < right" using True by (simp_all add: mid_def)
    show ?thesis
    proof (cases "cmp pivot (a ! mid) < 0")
      case lt: True
      have eq: "binary_position cmp pivot a left right = binary_position cmp pivot a left mid"
        by (subst binary_position.simps) (simp add: True lt mid_def [symmetric] Let_def)
      have "binary_position cmp pivot a left mid \<le> length a \<and>
         (binary_position cmp pivot a left mid = 0 \<or>
            0 \<le> cmp pivot (a ! (binary_position cmp pivot a left mid - 1))) \<and>
         (binary_position cmp pivot a left mid = length a \<or>
            cmp pivot (a ! binary_position cmp pivot a left mid) < 0)"
        using "1.IH"(1) [OF True mid_def lt] m "1.prems" lt by simp
      then show ?thesis by (simp only: eq)
    next
      case ge: False
      have eq: "binary_position cmp pivot a left right = binary_position cmp pivot a (mid + 1) right"
        by (subst binary_position.simps) (simp add: True ge mid_def [symmetric] Let_def)
      have "binary_position cmp pivot a (mid + 1) right \<le> length a \<and>
         (binary_position cmp pivot a (mid + 1) right = 0 \<or>
            0 \<le> cmp pivot (a ! (binary_position cmp pivot a (mid + 1) right - 1))) \<and>
         (binary_position cmp pivot a (mid + 1) right = length a \<or>
            cmp pivot (a ! binary_position cmp pivot a (mid + 1) right) < 0)"
        using "1.IH"(2) [OF True mid_def ge] m "1.prems" ge by simp
      then show ?thesis by (simp only: eq)
    qed
  qed
qed

lemma successively_insert_at:
  assumes "successively R a" and "i \<le> length a"
    and "i = 0 \<or> R (a ! (i - 1)) p" and "i = length a \<or> R p (a ! i)"
  shows "successively R (take i a @ p # drop i a)"
proof -
  have s: "successively R (take i a)" "successively R (drop i a)"
    using assms(1) successively_append_iff [of R "take i a" "drop i a"] by simp_all
  have l: "take i a = [] \<or> R (last (take i a)) p"
  proof (cases "i = 0")
    case True
    then show ?thesis by simp
  next
    case False
    then obtain j where j: "i = Suc j" by (cases i) simp_all
    with assms(2) have "take i a = take j a @ [a ! j]"
      by (simp add: take_Suc_conv_app_nth)
    then have "last (take i a) = a ! (i - 1)" using j by simp
    with assms(3) False show ?thesis by simp
  qed
  have r: "drop i a = [] \<or> R p (hd (drop i a))"
  proof (cases "i = length a")
    case True
    then show ?thesis by simp
  next
    case False
    with assms(2) have "hd (drop i a) = a ! i" by (simp add: hd_drop_conv_nth)
    with assms(4) False show ?thesis by simp
  qed
  have "successively R (p # drop i a)"
    using s(2) r by (cases "drop i a") simp_all
  then show ?thesis
    using s(1) l by (simp add: successively_append_iff)
qed

lemma binary_insertion_ordered:
  assumes "\<And>a b. 0 < cmp a b \<Longrightarrow> cmp b a < 0"
  shows "successively (\<lambda>x y. cmp x y \<le> 0) a \<Longrightarrow>
         successively (\<lambda>x y. cmp x y \<le> 0) (binary_insertion cmp a rest)"
proof (induction rest arbitrary: a)
  case Nil
  then show ?case by simp
next
  case (Cons pivot rest)
  let ?i = "binary_position cmp pivot a 0 (length a)"
  have n: "?i \<le> length a \<and> (?i = 0 \<or> 0 \<le> cmp pivot (a ! (?i - 1))) \<and>
      (?i = length a \<or> cmp pivot (a ! ?i) < 0)"
    by (rule binary_position_neighbours) simp_all
  have before: "?i = 0 \<or> cmp (a ! (?i - 1)) pivot \<le> 0"
    using n assms [of "a ! (?i - 1)" pivot] by force
  have after: "?i = length a \<or> cmp pivot (a ! ?i) \<le> 0"
    using n by force
  have "successively (\<lambda>x y. cmp x y \<le> 0) (take ?i a @ pivot # drop ?i a)"
    using Cons.prems n before after by (intro successively_insert_at) simp_all
  then have "successively (\<lambda>x y. cmp x y \<le> 0)
      (binary_insertion cmp (take ?i a @ pivot # drop ?i a) rest)"
    by (rule Cons.IH)
  then show ?case by (simp add: Let_def)
qed

lemma engine_sort_ordered:
  assumes "\<And>a b. 0 < cmp a b \<Longrightarrow> cmp b a < 0"
  shows "successively (\<lambda>x y. cmp x y \<le> 0) (engine_sort cmp xs)"
proof -
  obtain run rest where c: "count_and_make_run cmp xs = (run, rest)"
    by (cases "count_and_make_run cmp xs")
  have "successively (\<lambda>x y. cmp x y \<le> 0) run"
    using count_and_make_run_ordered [of cmp xs] assms c by simp
  then have "successively (\<lambda>x y. cmp x y \<le> 0) (binary_insertion cmp run rest)"
    using assms by (intro binary_insertion_ordered) simp_all
  with c show ?thesis by (simp add: engine_sort_def)
qed

text \<open>
  The engine on an array where the comparison is consistent: the binary search finds the
  position after the last element that the pivot is not less than, so that an element never
  passes one it ties with.
\<close>

lemma strict_then_le:
  fixes cmp :: "'a \<Rightarrow> 'a \<Rightarrow> int"
  assumes sign1: "\<And>a b. 0 < cmp a b \<Longrightarrow> cmp b a < 0"
    and sign2: "\<And>a b. cmp a b < 0 \<Longrightarrow> 0 < cmp b a"
    and trans: "\<And>x y z. x \<in> S \<Longrightarrow> y \<in> S \<Longrightarrow> z \<in> S \<Longrightarrow>
        cmp x y \<le> 0 \<Longrightarrow> cmp y z \<le> 0 \<Longrightarrow> cmp x z \<le> 0"
    and mem: "x \<in> S" "y \<in> S" "z \<in> S"
    and xy: "cmp x y < 0" and yz: "cmp y z \<le> 0"
  shows "cmp x z < 0"
proof (rule ccontr)
  assume "\<not> cmp x z < 0"
  moreover have "cmp x z \<le> 0" by (rule trans [OF mem]) (use xy yz in simp_all)
  ultimately have "cmp x z = 0" by simp
  then have "cmp z x \<le> 0" using sign1 [of z x] by force
  with yz have "cmp y x \<le> 0" by (intro trans [OF mem(2) mem(3) mem(1)]) simp_all
  moreover have "0 < cmp y x" using sign2 [OF xy] .
  ultimately show False by simp
qed

lemma le_then_strict:
  fixes cmp :: "'a \<Rightarrow> 'a \<Rightarrow> int"
  assumes sign1: "\<And>a b. 0 < cmp a b \<Longrightarrow> cmp b a < 0"
    and sign2: "\<And>a b. cmp a b < 0 \<Longrightarrow> 0 < cmp b a"
    and trans: "\<And>x y z. x \<in> S \<Longrightarrow> y \<in> S \<Longrightarrow> z \<in> S \<Longrightarrow>
        cmp x y \<le> 0 \<Longrightarrow> cmp y z \<le> 0 \<Longrightarrow> cmp x z \<le> 0"
    and mem: "x \<in> S" "y \<in> S" "z \<in> S"
    and xy: "cmp x y \<le> 0" and yz: "cmp y z < 0"
  shows "cmp x z < 0"
proof (rule ccontr)
  assume "\<not> cmp x z < 0"
  moreover have "cmp x z \<le> 0" by (rule trans [OF mem]) (use xy yz in simp_all)
  ultimately have "cmp x z = 0" by simp
  then have "cmp z x \<le> 0" using sign1 [of z x] by force
  with xy have "cmp z y \<le> 0" by (intro trans [OF mem(3) mem(1) mem(2)]) simp_all
  moreover have "0 < cmp z y" using sign2 [OF yz] .
  ultimately show False by simp
qed

lemma binary_position_bound:
  assumes sign1: "\<And>a b. 0 < cmp a b \<Longrightarrow> cmp b a < 0"
    and sign2: "\<And>a b. cmp a b < 0 \<Longrightarrow> 0 < cmp b a"
    and trans: "\<And>x y z. x \<in> S \<Longrightarrow> y \<in> S \<Longrightarrow> z \<in> S \<Longrightarrow>
        cmp x y \<le> 0 \<Longrightarrow> cmp y z \<le> 0 \<Longrightarrow> cmp x z \<le> 0"
    and sorted: "sorted_wrt (\<lambda>x y. cmp x y \<le> 0) a" and sub: "set a \<subseteq> S" and p: "pivot \<in> S"
  shows "left \<le> right \<Longrightarrow> right \<le> length a \<Longrightarrow>
     (\<forall>j<left. 0 \<le> cmp pivot (a ! j)) \<Longrightarrow>
     (\<forall>j. right \<le> j \<and> j < length a \<longrightarrow> cmp pivot (a ! j) < 0) \<Longrightarrow>
     binary_position cmp pivot a left right \<le> length a \<and>
     (\<forall>j<binary_position cmp pivot a left right. 0 \<le> cmp pivot (a ! j)) \<and>
     (\<forall>j. binary_position cmp pivot a left right \<le> j \<and> j < length a \<longrightarrow> cmp pivot (a ! j) < 0)"
proof (induction "right - left" arbitrary: left right rule: less_induct)
  case less
  show ?case
  proof (cases "left < right")
    case False
    with less.prems have lr: "left = right" by simp
    have "binary_position cmp pivot a left right = left"
      by (subst binary_position.simps) (simp add: lr)
    with less.prems lr show ?thesis by simp
  next
    case True
    define mid where "mid = left + (right - left) div 2"
    have m: "left \<le> mid" "mid < right" using True by (simp_all add: mid_def)
    have ml: "mid < length a" using m less.prems(2) by simp
    have am: "a ! mid \<in> S" using ml sub by (meson nth_mem subsetD)
    show ?thesis
    proof (cases "cmp pivot (a ! mid) < 0")
      case lt: True
      have eq: "binary_position cmp pivot a left right = binary_position cmp pivot a left mid"
        by (subst binary_position.simps) (simp add: True lt mid_def [symmetric] Let_def)
      have up: "\<forall>j. mid \<le> j \<and> j < length a \<longrightarrow> cmp pivot (a ! j) < 0"
      proof (intro allI impI)
        fix j assume j: "mid \<le> j \<and> j < length a"
        show "cmp pivot (a ! j) < 0"
        proof (cases "j = mid")
          case True
          with lt show ?thesis by simp
        next
          case False
          with j have "mid < j" by simp
          with j sorted have "cmp (a ! mid) (a ! j) \<le> 0"
            by (simp add: sorted_wrt_iff_nth_less)
          moreover have "a ! j \<in> S" using j sub by (meson nth_mem subsetD)
          ultimately show ?thesis
            using strict_then_le [of cmp S pivot "a ! mid" "a ! j"] sign1 sign2 trans p am lt
            by blast
        qed
      qed
      have "binary_position cmp pivot a left mid \<le> length a \<and>
         (\<forall>j<binary_position cmp pivot a left mid. 0 \<le> cmp pivot (a ! j)) \<and>
         (\<forall>j. binary_position cmp pivot a left mid \<le> j \<and> j < length a \<longrightarrow> cmp pivot (a ! j) < 0)"
      proof (rule less.hyps)
        show "mid - left < right - left" using m by simp
        show "left \<le> mid" by (rule m)
        show "mid \<le> length a" using ml by simp
        show "\<forall>j<left. 0 \<le> cmp pivot (a ! j)" by (rule less.prems)
        show "\<forall>j. mid \<le> j \<and> j < length a \<longrightarrow> cmp pivot (a ! j) < 0" by (rule up)
      qed
      then show ?thesis unfolding eq .
    next
      case ge: False
      have eq: "binary_position cmp pivot a left right = binary_position cmp pivot a (mid + 1) right"
        by (subst binary_position.simps) (simp add: True ge mid_def [symmetric] Let_def)
      have mp: "cmp (a ! mid) pivot \<le> 0" using ge sign1 [of "a ! mid" pivot] by force
      have low: "\<forall>j<mid + 1. 0 \<le> cmp pivot (a ! j)"
      proof (intro allI impI)
        fix j assume j: "j < mid + 1"
        show "0 \<le> cmp pivot (a ! j)"
        proof (cases "j = mid")
          case True
          with ge show ?thesis by simp
        next
          case False
          with j have jm: "j < mid" by simp
          with ml sorted have "cmp (a ! j) (a ! mid) \<le> 0"
            by (simp add: sorted_wrt_iff_nth_less)
          moreover have "a ! j \<in> S" using jm ml sub by (meson less_trans nth_mem subsetD)
          ultimately have "cmp (a ! j) pivot \<le> 0"
            using trans [of "a ! j" "a ! mid" pivot] am p mp by blast
          then show ?thesis using sign2 [of pivot "a ! j"] by force
        qed
      qed
      have "binary_position cmp pivot a (mid + 1) right \<le> length a \<and>
         (\<forall>j<binary_position cmp pivot a (mid + 1) right. 0 \<le> cmp pivot (a ! j)) \<and>
         (\<forall>j. binary_position cmp pivot a (mid + 1) right \<le> j \<and> j < length a \<longrightarrow>
            cmp pivot (a ! j) < 0)"
      proof (rule less.hyps)
        show "right - (mid + 1) < right - left" using m by simp
        show "mid + 1 \<le> right" using m by simp
        show "right \<le> length a" by (rule less.prems)
        show "\<forall>j<mid + 1. 0 \<le> cmp pivot (a ! j)" by (rule low)
        show "\<forall>j. right \<le> j \<and> j < length a \<longrightarrow> cmp pivot (a ! j) < 0" by (rule less.prems)
      qed
      then show ?thesis unfolding eq .
    qed
  qed
qed

text \<open>The engine returns a permutation of the array.\<close>

lemma mset_insert_at: "mset (take i a @ p # drop i a) = add_mset p (mset a)"
proof -
  have "mset (take i a) + mset (drop i a) = mset a"
    by (metis append_take_drop_id mset_append)
  then show ?thesis by simp
qed

lemma mset_binary_insertion: "mset (binary_insertion cmp a rest) = mset a + mset rest"
proof (induction rest arbitrary: a)
  case Nil
  then show ?case by simp
next
  case (Cons pivot rest)
  let ?i = "binary_position cmp pivot a 0 (length a)"
  have "mset (binary_insertion cmp (take ?i a @ pivot # drop ?i a) rest) =
      mset (take ?i a @ pivot # drop ?i a) + mset rest"
    by (rule Cons.IH)
  also have "\<dots> = add_mset pivot (mset a) + mset rest"
    by (simp only: mset_insert_at)
  finally show ?case by (simp add: Let_def)
qed

lemma mset_count_and_make_run:
  "mset (fst (count_and_make_run cmp xs)) + mset (snd (count_and_make_run cmp xs)) = mset xs"
proof (cases xs)
  case Nil
  then show ?thesis by simp
next
  case (Cons x ys)
  show ?thesis
  proof (cases ys)
    case Nil
    with Cons show ?thesis by simp
  next
    case (Cons y rest)
    with \<open>xs = x # ys\<close> have xs: "xs = x # y # rest" by simp
    have "mset (take n xs) + mset (drop n xs) = mset xs" for n
      by (metis append_take_drop_id mset_append)
    then show ?thesis
      unfolding xs by (simp add: Let_def del: take_Suc_Cons drop_Suc_Cons)
  qed
qed

lemma mset_engine_sort: "mset (engine_sort cmp xs) = mset xs"
  by (simp only: engine_sort_def case_prod_unfold mset_binary_insertion mset_count_and_make_run)

text \<open>
  The engine is stable where the comparison is consistent. A strictly descending run holds
  at most one element of a class of tied elements, so that reversing it swaps no two of them.
\<close>

lemma filter_at_most_one:
  assumes "sorted_wrt Q xs" and "\<And>x y. P x \<Longrightarrow> P y \<Longrightarrow> \<not> Q x y"
  shows "rev (filter P xs) = filter P xs"
  using assms(1)
proof (induction xs)
  case Nil
  then show ?case by simp
next
  case (Cons x xs)
  show ?case
  proof (cases "P x")
    case True
    have "\<forall>y\<in>set xs. \<not> P y" using Cons.prems True assms(2) by auto
    then have "filter P xs = []" by (simp add: filter_empty_conv)
    with True show ?thesis by simp
  next
    case False
    with Cons show ?thesis by simp
  qed
qed

lemma filter_insert_at:
  fixes cmp :: "'a \<Rightarrow> 'a \<Rightarrow> int"
  assumes "\<And>x y. P x \<Longrightarrow> P y \<Longrightarrow> cmp x y = 0"
    and "i \<le> length a"
    and "\<forall>j. i \<le> j \<and> j < length a \<longrightarrow> cmp p (a ! j) < 0"
  shows "filter P (take i a @ p # drop i a) = filter P (a @ [p])"
proof (cases "P p")
  case False
  have "filter P (take i a) @ filter P (drop i a) = filter P a"
    by (metis append_take_drop_id filter_append)
  with False show ?thesis by simp
next
  case True
  have "\<not> P x" if "x \<in> set (drop i a)" for x
  proof
    assume "P x"
    from that obtain k where k: "k < length (drop i a)" "x = drop i a ! k"
      by (auto simp: in_set_conv_nth)
    then have "x = a ! (i + k)" "i + k < length a" using assms(2) by simp_all
    with assms(3) have "cmp p x < 0" by simp
    moreover have "cmp p x = 0" using assms(1) True \<open>P x\<close> by simp
    ultimately show False by simp
  qed
  then have d: "filter P (drop i a) = []" by (simp add: filter_empty_conv)
  have "filter P (take i a) @ filter P (drop i a) = filter P a"
    by (metis append_take_drop_id filter_append)
  with d True show ?thesis by simp
qed

lemma binary_insertion_stable:
  fixes cmp :: "'a \<Rightarrow> 'a \<Rightarrow> int"
  assumes sign1: "\<And>a b. 0 < cmp a b \<Longrightarrow> cmp b a < 0"
    and sign2: "\<And>a b. cmp a b < 0 \<Longrightarrow> 0 < cmp b a"
    and trans: "\<And>x y z. x \<in> S \<Longrightarrow> y \<in> S \<Longrightarrow> z \<in> S \<Longrightarrow>
        cmp x y \<le> 0 \<Longrightarrow> cmp y z \<le> 0 \<Longrightarrow> cmp x z \<le> 0"
    and tie: "\<And>x y. P x \<Longrightarrow> P y \<Longrightarrow> cmp x y = 0"
  shows "sorted_wrt (\<lambda>x y. cmp x y \<le> 0) a \<Longrightarrow> set a \<subseteq> S \<Longrightarrow> set rest \<subseteq> S \<Longrightarrow>
     filter P (binary_insertion cmp a rest) = filter P (a @ rest)"
proof (induction rest arbitrary: a)
  case Nil
  then show ?case by simp
next
  case (Cons pivot rest)
  let ?i = "binary_position cmp pivot a 0 (length a)"
  let ?b = "take ?i a @ pivot # drop ?i a"
  have p: "pivot \<in> S" using Cons.prems(3) by simp
  have b: "?i \<le> length a \<and> (\<forall>j<?i. 0 \<le> cmp pivot (a ! j)) \<and>
      (\<forall>j. ?i \<le> j \<and> j < length a \<longrightarrow> cmp pivot (a ! j) < 0)"
    by (rule binary_position_bound [OF sign1 sign2 trans Cons.prems(1) Cons.prems(2) p]) simp_all
  have sub: "set ?b \<subseteq> S"
  proof -
    have "set ?b = insert pivot (set a)"
      using mset_insert_at [of ?i a pivot] by (metis set_mset_mset set_mset_add_mset_insert)
    with Cons.prems(2) p show ?thesis by simp
  qed
  have before: "?i = 0 \<or> cmp (a ! (?i - 1)) pivot \<le> 0"
  proof (cases "?i = 0")
    case True
    then show ?thesis by simp
  next
    case False
    with b have "0 \<le> cmp pivot (a ! (?i - 1))" by simp
    then show ?thesis using sign1 [of "a ! (?i - 1)" pivot] by force
  qed
  have after: "?i = length a \<or> cmp pivot (a ! ?i) \<le> 0"
    using b by force
  have "successively (\<lambda>x y. cmp x y \<le> 0) a"
    using Cons.prems(1) by (rule successively_if_sorted_wrt)
  then have "successively (\<lambda>x y. cmp x y \<le> 0) ?b"
    using b before after by (intro successively_insert_at) simp_all
  moreover have "successively (\<lambda>x y. cmp x y \<le> 0) ?b \<longleftrightarrow> sorted_wrt (\<lambda>x y. cmp x y \<le> 0) ?b"
  proof (rule successively_iff_sorted_wrt_strong)
    fix x y z
    assume "x \<in> set ?b" "y \<in> set ?b" "z \<in> set ?b" "cmp x y \<le> 0" "cmp y z \<le> 0"
    with sub show "cmp x z \<le> 0" by (intro trans [of x y z]) auto
  qed
  ultimately have sorted: "sorted_wrt (\<lambda>x y. cmp x y \<le> 0) ?b" by simp
  have e1: "binary_insertion cmp a (pivot # rest) = binary_insertion cmp ?b rest"
    by (simp add: Let_def)
  have "filter P (binary_insertion cmp ?b rest) = filter P (?b @ rest)"
    using sorted sub Cons.prems(3) by (intro Cons.IH) simp_all
  then have e2: "filter P (binary_insertion cmp ?b rest) = filter P ?b @ filter P rest"
    by (simp only: filter_append)
  have "filter P ?b = filter P (a @ [pivot])"
  proof (rule filter_insert_at [where P = P and cmp = cmp and a = a and p = pivot])
    show "\<And>x y. P x \<Longrightarrow> P y \<Longrightarrow> cmp x y = 0" by (rule tie)
    show "?i \<le> length a" using b by (rule conjunct1)
    show "\<forall>j. ?i \<le> j \<and> j < length a \<longrightarrow> cmp pivot (a ! j) < 0" using b by blast
  qed
  then have e3: "filter P ?b = filter P a @ filter P [pivot]"
    by (simp only: filter_append)
  have e4: "filter P (a @ pivot # rest) = filter P a @ filter P [pivot] @ filter P rest"
    by simp
  show ?case by (simp only: e1 e2 e3 e4 append_assoc)
qed

lemma count_and_make_run_stable:
  fixes cmp :: "'a \<Rightarrow> 'a \<Rightarrow> int"
  assumes sign1: "\<And>a b. 0 < cmp a b \<Longrightarrow> cmp b a < 0"
    and sign2: "\<And>a b. cmp a b < 0 \<Longrightarrow> 0 < cmp b a"
    and trans: "\<And>x y z. x \<in> S \<Longrightarrow> y \<in> S \<Longrightarrow> z \<in> S \<Longrightarrow>
        cmp x y \<le> 0 \<Longrightarrow> cmp y z \<le> 0 \<Longrightarrow> cmp x z \<le> 0"
    and tie: "\<And>x y. P x \<Longrightarrow> P y \<Longrightarrow> cmp x y = 0"
    and sub: "set xs \<subseteq> S"
  shows "filter P (fst (count_and_make_run cmp xs)) @ filter P (snd (count_and_make_run cmp xs)) =
      filter P xs"
proof (cases xs)
  case Nil
  then show ?thesis by simp
next
  case (Cons x ys)
  show ?thesis
  proof (cases ys)
    case Nil
    with Cons show ?thesis by simp
  next
    case (Cons y rest)
    with \<open>xs = x # ys\<close> have xs: "xs = x # y # rest" by simp
    have split: "filter P (take n xs) @ filter P (drop n xs) = filter P xs" for n
      by (metis append_take_drop_id filter_append)
    show ?thesis
    proof (cases "cmp y x < 0")
      case False
      define n where "n = 2 + run_length cmp False y rest"
      have "count_and_make_run cmp xs = (take n xs, drop n xs)"
        using False by (simp add: xs Let_def n_def)
      then show ?thesis by (simp only: fst_conv snd_conv split)
    next
      case True
      define n where "n = 2 + run_length cmp True y rest"
      have c: "count_and_make_run cmp xs = (rev (take n xs), drop n xs)"
        using True by (simp add: xs Let_def n_def)
      have t: "take n xs = x # y # take (run_length cmp True y rest) rest"
        by (simp add: xs n_def)
      have "successively (\<lambda>a b. cmp b a < 0) (take n xs)"
        unfolding t using True run_descending [of cmp y rest] by simp
      moreover have "successively (\<lambda>a b. cmp b a < 0) (take n xs) \<longleftrightarrow>
          sorted_wrt (\<lambda>a b. cmp b a < 0) (take n xs)"
      proof (rule successively_iff_sorted_wrt_strong)
        fix a b c
        assume m: "a \<in> set (take n xs)" "b \<in> set (take n xs)" "c \<in> set (take n xs)"
          and ab: "cmp b a < 0" and bc: "cmp c b < 0"
        have t: "set (take n xs) \<subseteq> S" using set_take_subset [of n xs] sub by (rule subset_trans)
        have sa: "a \<in> S" using m(1) t by (rule subsetD [rotated])
        have sb: "b \<in> S" using m(2) t by (rule subsetD [rotated])
        have sc: "c \<in> S" using m(3) t by (rule subsetD [rotated])
        from ab have ba: "cmp b a \<le> 0" by simp
        show "cmp c a < 0"
          using sign1 sign2 trans sc sb sa bc ba by (rule strict_then_le)
      qed
      ultimately have "sorted_wrt (\<lambda>a b. cmp b a < 0) (take n xs)" by simp
      then have "rev (filter P (take n xs)) = filter P (take n xs)"
      proof (rule filter_at_most_one)
        fix a b
        assume "P a" "P b"
        then have "cmp b a = 0" by (rule tie [rotated])
        then show "\<not> cmp b a < 0" by simp
      qed
      then have "filter P (rev (take n xs)) = filter P (take n xs)"
        by (simp only: rev_filter)
      then show ?thesis by (simp only: c fst_conv snd_conv split)
    qed
  qed
qed

lemma count_and_make_run_sorted:
  fixes cmp :: "'a \<Rightarrow> 'a \<Rightarrow> int"
  assumes sign1: "\<And>a b. 0 < cmp a b \<Longrightarrow> cmp b a < 0"
    and trans: "\<And>x y z. x \<in> S \<Longrightarrow> y \<in> S \<Longrightarrow> z \<in> S \<Longrightarrow>
        cmp x y \<le> 0 \<Longrightarrow> cmp y z \<le> 0 \<Longrightarrow> cmp x z \<le> 0"
    and sub: "set xs \<subseteq> S"
  shows "sorted_wrt (\<lambda>x y. cmp x y \<le> 0) (fst (count_and_make_run cmp xs)) \<and>
     set (fst (count_and_make_run cmp xs)) \<subseteq> S \<and> set (snd (count_and_make_run cmp xs)) \<subseteq> S"
proof -
  let ?run = "fst (count_and_make_run cmp xs)"
  let ?rest = "snd (count_and_make_run cmp xs)"
  have "set_mset (mset ?run + mset ?rest) = set_mset (mset xs)"
    by (simp only: mset_count_and_make_run)
  then have "set ?run \<union> set ?rest = set xs" by simp
  with sub have s: "set ?run \<subseteq> S" "set ?rest \<subseteq> S" by auto
  have "successively (\<lambda>a b. cmp a b \<le> 0) ?run"
    using sign1 by (rule count_and_make_run_ordered)
  moreover have "successively (\<lambda>a b. cmp a b \<le> 0) ?run \<longleftrightarrow> sorted_wrt (\<lambda>a b. cmp a b \<le> 0) ?run"
  proof (rule successively_iff_sorted_wrt_strong)
    fix x y z
    assume "x \<in> set ?run" "y \<in> set ?run" "z \<in> set ?run" "cmp x y \<le> 0" "cmp y z \<le> 0"
    with s(1) show "cmp x z \<le> 0" by (intro trans [of x y z]) auto
  qed
  ultimately show ?thesis using s by simp
qed

lemma engine_sort_stable:
  fixes cmp :: "'a \<Rightarrow> 'a \<Rightarrow> int"
  assumes sign1: "\<And>a b. 0 < cmp a b \<Longrightarrow> cmp b a < 0"
    and sign2: "\<And>a b. cmp a b < 0 \<Longrightarrow> 0 < cmp b a"
    and trans: "\<And>x y z. x \<in> set xs \<Longrightarrow> y \<in> set xs \<Longrightarrow> z \<in> set xs \<Longrightarrow>
        cmp x y \<le> 0 \<Longrightarrow> cmp y z \<le> 0 \<Longrightarrow> cmp x z \<le> 0"
    and tie: "\<And>x y. P x \<Longrightarrow> P y \<Longrightarrow> cmp x y = 0"
  shows "filter P (engine_sort cmp xs) = filter P xs"
proof -
  let ?run = "fst (count_and_make_run cmp xs)"
  let ?rest = "snd (count_and_make_run cmp xs)"
  have e: "engine_sort cmp xs = binary_insertion cmp ?run ?rest"
    by (simp only: engine_sort_def case_prod_unfold)
  have s: "sorted_wrt (\<lambda>x y. cmp x y \<le> 0) ?run \<and> set ?run \<subseteq> set xs \<and> set ?rest \<subseteq> set xs"
    using sign1 trans subset_refl by (rule count_and_make_run_sorted [where S = "set xs"])
  have s1: "sorted_wrt (\<lambda>x y. cmp x y \<le> 0) ?run" using s by (rule conjunct1)
  have s2: "set ?run \<subseteq> set xs" using s by blast
  have s3: "set ?rest \<subseteq> set xs" using s by blast
  have "filter P (binary_insertion cmp ?run ?rest) = filter P (?run @ ?rest)"
    using sign1 sign2 trans tie s1 s2 s3
    by (rule binary_insertion_stable [where S = "set xs"])
  also have "\<dots> = filter P ?run @ filter P ?rest" by (simp only: filter_append)
  also have "\<dots> = filter P xs"
    using sign1 sign2 trans tie subset_refl
    by (rule count_and_make_run_stable [where S = "set xs"])
  finally show ?thesis by (simp only: e)
qed

text \<open>
  Where the comparison is consistent there is one arrangement that is in order and keeps
  the input order of the elements that compare equal. The engine and the stable insertion
  sort both return it, and so does any other sort that is correct and stable.
\<close>

lemma stable_sort_unique:
  fixes cmp :: "'a \<Rightarrow> 'a \<Rightarrow> int"
  assumes sign1: "\<And>a b. 0 < cmp a b \<Longrightarrow> cmp b a < 0"
    and sign2: "\<And>a b. cmp a b < 0 \<Longrightarrow> 0 < cmp b a"
  shows "mset ys = mset zs \<Longrightarrow>
     sorted_wrt (\<lambda>x y. cmp x y \<le> 0) ys \<Longrightarrow> sorted_wrt (\<lambda>x y. cmp x y \<le> 0) zs \<Longrightarrow>
     (\<And>r. r \<in> set ys \<Longrightarrow> filter (\<lambda>x. cmp r x = 0) ys = filter (\<lambda>x. cmp r x = 0) zs) \<Longrightarrow>
     ys = zs"
proof (induction ys arbitrary: zs)
  case Nil
  then show ?case by simp
next
  case (Cons y ys)
  from Cons.prems(1) have "zs \<noteq> []" by auto
  then obtain z zs' where zs: "zs = z # zs'" by (cases zs) auto
  have refl: "cmp y y = 0"
    using sign1 [of y y] sign2 [of y y] by force
  have yz: "y = z"
  proof (rule ccontr)
    assume ne: "y \<noteq> z"
    have "y \<in> set zs" using Cons.prems(1) by (metis list.set_intros(1) mset_eq_setD)
    with ne have "y \<in> set zs'" by (simp add: zs)
    then have zy: "cmp z y \<le> 0" using Cons.prems(3) by (simp add: zs)
    have "z \<in> set (y # ys)" using Cons.prems(1) by (metis list.set_intros(1) mset_eq_setD zs)
    with ne have "z \<in> set ys" by simp
    then have "cmp y z \<le> 0" using Cons.prems(2) by simp
    with zy have e: "cmp y z = 0" using sign2 [of y z] by force
    have f: "filter (\<lambda>x. cmp y x = 0) (y # ys) = y # filter (\<lambda>x. cmp y x = 0) ys"
      by (simp add: refl)
    have g: "filter (\<lambda>x. cmp y x = 0) zs = z # filter (\<lambda>x. cmp y x = 0) zs'"
      by (simp add: zs e)
    have "filter (\<lambda>x. cmp y x = 0) (y # ys) = filter (\<lambda>x. cmp y x = 0) zs"
      by (rule Cons.prems(4)) simp
    then have "y # filter (\<lambda>x. cmp y x = 0) ys = z # filter (\<lambda>x. cmp y x = 0) zs'"
      by (simp only: f g)
    then have "y = z" by (simp only: list.inject)
    with ne show False by simp
  qed
  have "ys = zs'"
  proof (rule Cons.IH)
    show "mset ys = mset zs'" using Cons.prems(1) by (simp add: zs yz)
    show "sorted_wrt (\<lambda>x y. cmp x y \<le> 0) ys" using Cons.prems(2) by simp
    show "sorted_wrt (\<lambda>x y. cmp x y \<le> 0) zs'" using Cons.prems(3) by (simp add: zs)
    show "filter (\<lambda>x. cmp r x = 0) ys = filter (\<lambda>x. cmp r x = 0) zs'" if "r \<in> set ys" for r
    proof -
      have "filter (\<lambda>x. cmp r x = 0) (y # ys) = filter (\<lambda>x. cmp r x = 0) (y # zs')"
        using Cons.prems(4) [of r] that by (simp only: zs yz list.set_intros)
      then show ?thesis by (cases "cmp r y = 0") simp_all
    qed
  qed
  with yz show ?case by (simp add: zs)
qed

lemma engine_sort_eq_array_sort:
  fixes cmp :: "'a \<Rightarrow> 'a \<Rightarrow> int"
  assumes sign1: "\<And>a b. 0 < cmp a b \<Longrightarrow> cmp b a < 0"
    and sign2: "\<And>a b. cmp a b < 0 \<Longrightarrow> 0 < cmp b a"
    and trans: "\<And>x y z. x \<in> set xs \<Longrightarrow> y \<in> set xs \<Longrightarrow> z \<in> set xs \<Longrightarrow>
        cmp x y \<le> 0 \<Longrightarrow> cmp y z \<le> 0 \<Longrightarrow> cmp x z \<le> 0"
  shows "engine_sort cmp xs = array_sort cmp xs"
  using sign1 sign2
proof (rule stable_sort_unique)
  show "mset (engine_sort cmp xs) = mset (array_sort cmp xs)"
    by (simp only: mset_engine_sort mset_array_sort)
  have se: "set (engine_sort cmp xs) = set xs"
    using mset_engine_sort [of cmp xs] by (rule mset_eq_setD)
  have "successively (\<lambda>a b. cmp a b \<le> 0) (engine_sort cmp xs)"
    using sign1 by (rule engine_sort_ordered)
  moreover have "successively (\<lambda>a b. cmp a b \<le> 0) (engine_sort cmp xs) \<longleftrightarrow>
      sorted_wrt (\<lambda>a b. cmp a b \<le> 0) (engine_sort cmp xs)"
    by (rule successively_iff_sorted_wrt_strong) (simp only: se, rule trans)
  ultimately show "sorted_wrt (\<lambda>a b. cmp a b \<le> 0) (engine_sort cmp xs)" by simp
  show "sorted_wrt (\<lambda>a b. cmp a b \<le> 0) (array_sort cmp xs)"
  proof (rule sorted_wrt_array_sort)
    show "cmp y x \<le> 0" if "0 < cmp x y" for x y
      using sign1 [OF that] by simp
    show "cmp x z \<le> 0" if "x \<in> set xs" "y \<in> set xs" "z \<in> set xs" "cmp x y \<le> 0" "cmp y z \<le> 0"
      for x y z
      using that by (rule trans)
  qed
  show "filter (\<lambda>x. cmp r x = 0) (engine_sort cmp xs) = filter (\<lambda>x. cmp r x = 0) (array_sort cmp xs)"
    if "r \<in> set (engine_sort cmp xs)" for r
  proof -
    from that se have r: "r \<in> set xs" by simp
    have le: "cmp x y \<le> 0" if "x \<in> set xs" "y \<in> set xs" "cmp r x = 0" "cmp r y = 0" for x y
    proof -
      have "cmp x r \<le> 0" using sign1 [of x r] that(3) by force
      moreover have "cmp r y \<le> 0" using that(4) by simp
      ultimately show ?thesis using that(1) r that(2) by (intro trans [of x r y])
    qed
    let ?P = "\<lambda>x. x \<in> set xs \<and> cmp r x = 0"
    have "filter (\<lambda>x. cmp r x = 0) (engine_sort cmp xs) = filter ?P (engine_sort cmp xs)"
      by (rule filter_cong) (simp_all add: se)
    also have "\<dots> = filter ?P xs"
    proof (rule engine_sort_stable [OF sign1 sign2 trans])
      fix x y
      assume "x \<in> set xs \<and> cmp r x = 0" "y \<in> set xs \<and> cmp r y = 0"
      then have "cmp x y \<le> 0" "cmp y x \<le> 0" by (simp_all add: le)
      then show "cmp x y = 0" using sign2 [of x y] by force
    qed
    also have "\<dots> = filter (\<lambda>x. cmp r x = 0) xs"
      by (rule filter_cong) simp_all
    also have "\<dots> = filter (\<lambda>x. cmp r x = 0) (array_sort cmp xs)"
      by (rule filter_array_sort [symmetric]) (rule le)
    finally show ?thesis .
  qed
qed

lemma array_sort_is_the_stable_sort:
  fixes cmp :: "'a \<Rightarrow> 'a \<Rightarrow> int"
  assumes sign1: "\<And>a b. 0 < cmp a b \<Longrightarrow> cmp b a < 0"
    and sign2: "\<And>a b. cmp a b < 0 \<Longrightarrow> 0 < cmp b a"
    and trans: "\<And>x y z. x \<in> set xs \<Longrightarrow> y \<in> set xs \<Longrightarrow> z \<in> set xs \<Longrightarrow>
        cmp x y \<le> 0 \<Longrightarrow> cmp y z \<le> 0 \<Longrightarrow> cmp x z \<le> 0"
    and perm: "mset ys = mset xs"
    and sorted: "sorted_wrt (\<lambda>a b. cmp a b \<le> 0) ys"
    and stable: "\<And>r. r \<in> set xs \<Longrightarrow> filter (\<lambda>x. cmp r x = 0) ys = filter (\<lambda>x. cmp r x = 0) xs"
  shows "ys = array_sort cmp xs"
  using sign1 sign2
proof (rule stable_sort_unique)
  show "mset ys = mset (array_sort cmp xs)" by (simp only: perm mset_array_sort)
  show "sorted_wrt (\<lambda>a b. cmp a b \<le> 0) ys" by (rule sorted)
  show "sorted_wrt (\<lambda>a b. cmp a b \<le> 0) (array_sort cmp xs)"
  proof (rule sorted_wrt_array_sort)
    show "cmp y x \<le> 0" if "0 < cmp x y" for x y
      using sign1 [OF that] by simp
    show "cmp x z \<le> 0" if "x \<in> set xs" "y \<in> set xs" "z \<in> set xs" "cmp x y \<le> 0" "cmp y z \<le> 0"
      for x y z
      using that by (rule trans)
  qed
  show "filter (\<lambda>x. cmp r x = 0) ys = filter (\<lambda>x. cmp r x = 0) (array_sort cmp xs)"
    if "r \<in> set ys" for r
  proof -
    have "set ys = set xs" using perm by (rule mset_eq_setD)
    with that have r: "r \<in> set xs" by simp
    have le: "cmp x y \<le> 0" if "x \<in> set xs" "y \<in> set xs" "cmp r x = 0" "cmp r y = 0" for x y
    proof -
      have "cmp x r \<le> 0" using sign1 [of x r] that(3) by force
      moreover have "cmp r y \<le> 0" using that(4) by simp
      ultimately show ?thesis using that(1) r that(2) by (intro trans [of x r y])
    qed
    have "filter (\<lambda>x. cmp r x = 0) (array_sort cmp xs) = filter (\<lambda>x. cmp r x = 0) xs"
      by (rule filter_array_sort) (rule le)
    with stable [OF r] show ?thesis by simp
  qed
qed

text \<open>The comparison by character codes is consistent.\<close>

lemma ordinalCompare_flip: "(ordinalCompare a b < 0) = (0 < ordinalCompare b a)"
  by (induction a b rule: ordinalCompare.induct) auto

lemma ordinalCompare_Cons_le:
  "ordinalCompare (x # xs) (y # ys) \<le> 0 \<longleftrightarrow>
     (of_char x :: nat) < of_char y \<or> ((of_char x :: nat) = of_char y \<and> ordinalCompare xs ys \<le> 0)"
  by auto

lemma ordinalCompare_trans:
  "ordinalCompare a b \<le> 0 \<Longrightarrow> ordinalCompare b d \<le> 0 \<Longrightarrow> ordinalCompare a d \<le> 0"
proof (induction a b arbitrary: d rule: ordinalCompare.induct)
  case 1
  then show ?case by simp
next
  case (2 y ys)
  then show ?case by (cases d) simp_all
next
  case (3 x xs)
  then show ?case by simp
next
  case (4 x xs y ys)
  show ?case
  proof (cases d)
    case Nil
    with 4(3) show ?thesis by simp
  next
    case (Cons z zs)
    have ab: "(of_char x :: nat) < of_char y \<or>
        ((of_char x :: nat) = of_char y \<and> ordinalCompare xs ys \<le> 0)"
      using 4(2) by (simp only: ordinalCompare_Cons_le)
    have bd: "(of_char y :: nat) < of_char z \<or>
        ((of_char y :: nat) = of_char z \<and> ordinalCompare ys zs \<le> 0)"
      using 4(3) unfolding Cons by (simp only: ordinalCompare_Cons_le)
    have ih: "(of_char x :: nat) = of_char y \<Longrightarrow> ordinalCompare xs ys \<le> 0 \<Longrightarrow>
        ordinalCompare ys zs \<le> 0 \<Longrightarrow> ordinalCompare xs zs \<le> 0"
      using 4(1) by simp
    have "(of_char x :: nat) < of_char z \<or>
        ((of_char x :: nat) = of_char z \<and> ordinalCompare xs zs \<le> 0)"
      using ab bd ih by linarith
    then show ?thesis unfolding Cons by (simp only: ordinalCompare_Cons_le)
  qed
qed

lemma consistent_ordinalCompare: "consistent ordinalCompare"
  unfolding consistent_def using ordinalCompare_flip ordinalCompare_trans by blast

section \<open>What \<open>query\<close> leaves alone\<close>

lemma frame_set_querying:
  "data (set_querying v st) = data st \<and> projectId (set_querying v st) = projectId st \<and>
   fullQuery (set_querying v st) = fullQuery st \<and>
   publishes (events (set_querying v st)) = publishes (events st)"
  by (simp add: set_querying_def publishes_def)

lemma tryLegacy_state:
  "snd (tryLegacy lc sdb pid st) = st \<or> snd (tryLegacy lc sdb pid st) = set_querying False st"
  by (simp add: tryLegacy_def Let_def split: sum.splits)

lemma query_try_state:
  "snd (query_try lc pdb sdb pid st) = st \<or> snd (query_try lc pdb sdb pid st) = set_querying False st"
  using tryLegacy_state [of lc sdb pid st]
  by (simp add: query_try_def Let_def split: sum.splits)

lemma frame_query_try:
  "data (snd (query_try lc pdb sdb pid st)) = data st \<and>
   projectId (snd (query_try lc pdb sdb pid st)) = projectId st \<and>
   fullQuery (snd (query_try lc pdb sdb pid st)) = fullQuery st \<and>
   publishes (events (snd (query_try lc pdb sdb pid st))) = publishes (events st)"
  using query_try_state [of lc pdb sdb pid st] frame_set_querying [of False st] by auto

lemma frame_query_catch:
  "data (snd (query_catch cause st)) = data st \<and>
   projectId (snd (query_catch cause st)) = projectId st \<and>
   fullQuery (snd (query_catch cause st)) = fullQuery st \<and>
   publishes (events (snd (query_catch cause st))) = publishes (events st)"
  using frame_set_querying [of False st]
  by (simp add: query_catch_def Let_def publishes_def)

lemma query_cases:
  "query lc pdb sdb pid st = (Inl missing_id, st) \<or>
   (\<exists>r. query lc pdb sdb pid st = (Inr r, snd (query_try lc pdb sdb (the pid) (set_querying True st)))) \<or>
   (\<exists>cause. query lc pdb sdb pid st =
      query_catch cause (snd (query_try lc pdb sdb (the pid) (set_querying True st))))"
  by (cases "query_try lc pdb sdb (the pid) (set_querying True st)")
     (auto simp: query_def split: sum.splits)

lemma query_frame:
  "data (snd (query lc pdb sdb pid st)) = data st \<and>
   projectId (snd (query lc pdb sdb pid st)) = projectId st \<and>
   fullQuery (snd (query lc pdb sdb pid st)) = fullQuery st \<and>
   publishes (events (snd (query lc pdb sdb pid st))) = publishes (events st)"
  using query_cases [of lc pdb sdb pid st]
    frame_query_try [of lc pdb sdb "the pid" "set_querying True st"]
    frame_set_querying [of True st]
    frame_query_catch [of _ "snd (query_try lc pdb sdb (the pid) (set_querying True st))"]
  by (elim disjE exE) simp_all

text \<open>
  Claim C10. A direct call of \<open>query\<close>, whether it resolves or rejects, leaves \<open>data\<close>
  (and \<open>projectId\<close> and \<open>fullQuery\<close>) as they were and dispatches no \<open>data\<close> event: it
  changes the \<open>querying\<close> flag and reports through events only.
\<close>

theorem query_leaves_data:
  "data (snd (query lc pdb sdb pid st)) = data st \<and>
   projectId (snd (query lc pdb sdb pid st)) = projectId st \<and>
   fullQuery (snd (query lc pdb sdb pid st)) = fullQuery st \<and>
   publishes (events (snd (query lc pdb sdb pid st))) = publishes (events st)"
proof -
  let ?body = "query_try lc pdb sdb (the pid) (set_querying True st)"
  have entry: "data (set_querying True st) = data st \<and>
      projectId (set_querying True st) = projectId st \<and>
      fullQuery (set_querying True st) = fullQuery st \<and>
      publishes (events (set_querying True st)) = publishes (events st)"
    by (rule frame_set_querying)
  have body: "data (snd ?body) = data (set_querying True st) \<and>
      projectId (snd ?body) = projectId (set_querying True st) \<and>
      fullQuery (snd ?body) = fullQuery (set_querying True st) \<and>
      publishes (events (snd ?body)) = publishes (events (set_querying True st))"
    by (rule frame_query_try)
  from query_cases [of lc pdb sdb pid st] consider
      "query lc pdb sdb pid st = (Inl missing_id, st)"
    | r where "query lc pdb sdb pid st = (Inr r, snd ?body)"
    | cause where "query lc pdb sdb pid st = query_catch cause (snd ?body)"
    by blast
  then show ?thesis
  proof cases
    case 1
    then show ?thesis by simp
  next
    case 2
    with entry body show ?thesis by simp
  next
    case 3
    with entry body frame_query_catch [of cause "snd ?body"] show ?thesis by simp
  qed
qed

section \<open>Errors of \<open>query\<close>\<close>

lemma tryLegacy_throw_state: "tryLegacy lc sdb pid st = (Inl cause, st') \<Longrightarrow> st' = st"
  by (auto simp: tryLegacy_def Let_def split: sum.splits)

lemma query_try_throw_state: "query_try lc pdb sdb pid st = (Inl cause, st') \<Longrightarrow> st' = st"
  by (auto simp: query_try_def Let_def split: sum.splits if_splits dest: tryLegacy_throw_state)

lemma query_catch_result:
  "query_catch cause (set_querying True st) =
     (Inr [], (set_querying True st)\<lparr>querying := Some False,
        events := events (set_querying True st) @ [QueryingEvent False, SendAnalytics (cause_message cause)]\<rparr>)"
  by (simp add: query_catch_def set_querying_def Let_def)

lemma store_failures_throw:
  "pdb pid = Inl cause \<Longrightarrow> query_try lc pdb sdb pid st = (Inl cause, st)"
  "pdb pid = Inr doc \<Longrightarrow> requests doc = Some (k # ks) \<Longrightarrow> db_allDocs_keys sdb (k # ks) = Inl cause \<Longrightarrow>
     query_try lc pdb sdb pid st = (Inl cause, st)"
  "pdb pid = Inr doc \<Longrightarrow> requests doc = Some (k # ks) \<Longrightarrow> db_allDocs_keys sdb (k # ks) = Inr Malformed \<Longrightarrow>
     query_try lc pdb sdb pid st = (Inl type_error, st)"
  "pdb pid = Inr doc \<Longrightarrow> requests doc = None \<Longrightarrow> db_allDocs sdb = Inl cause \<Longrightarrow>
     query_try lc pdb sdb pid st = (Inl cause, st)"
  "pdb pid = Inr doc \<Longrightarrow> requests doc = None \<Longrightarrow> db_allDocs sdb = Inr Malformed \<Longrightarrow>
     query_try lc pdb sdb pid st = (Inl type_error, st)"
  by (simp_all add: query_try_def readProjectRequests_def getProjectRequest_def tryLegacy_def
      filterRequests_def)

text \<open>
  Claim C3. \<open>query\<close> rejects exactly when the identifier is empty or absent, and then
  with the explicit missing-argument error. With an identifier it always resolves; and
  whenever the \<open>try\<close> block throws (the project read rejects, a store call rejects, a
  response is malformed), the call resolves to the empty list, \<open>querying\<close> is \<open>false\<close>
  and the message of the cause is dispatched as \<open>send-analytics\<close>.
\<close>

theorem query_rejects_only_without_id:
  "(\<not> truthy pid \<longrightarrow> query lc pdb sdb pid st = (Inl missing_id, st)) \<and>
   (truthy pid \<longrightarrow> (\<exists>r. fst (query lc pdb sdb pid st) = Inr r)) \<and>
   (truthy pid \<longrightarrow>
      (\<forall>cause st'. query_try lc pdb sdb (the pid) (set_querying True st) = (Inl cause, st') \<longrightarrow>
         fst (query lc pdb sdb pid st) = Inr [] \<and>
         querying (snd (query lc pdb sdb pid st)) = Some False \<and>
         events (snd (query lc pdb sdb pid st)) =
           events (set_querying True st) @ [QueryingEvent False, SendAnalytics (cause_message cause)]))"
proof (intro conjI impI allI)
  assume "\<not> truthy pid"
  then show "query lc pdb sdb pid st = (Inl missing_id, st)" by (simp add: query_def)
next
  assume t: "truthy pid"
  show "\<exists>r. fst (query lc pdb sdb pid st) = Inr r"
  proof (cases "query_try lc pdb sdb (the pid) (set_querying True st)")
    case (Pair res st')
    with t show ?thesis
      by (cases res) (simp_all add: query_def query_catch_def Let_def)
  qed
next
  fix cause st'
  assume t: "truthy pid"
    and f: "query_try lc pdb sdb (the pid) (set_querying True st) = (Inl cause, st')"
  from f have st': "st' = set_querying True st" by (rule query_try_throw_state)
  have q: "query lc pdb sdb pid st = query_catch cause (set_querying True st)"
    using t f st' by (simp add: query_def)
  show "fst (query lc pdb sdb pid st) = Inr []"
    by (simp add: q query_catch_result)
  show "querying (snd (query lc pdb sdb pid st)) = Some False"
    by (simp add: q query_catch_result)
  show "events (snd (query lc pdb sdb pid st)) =
      events (set_querying True st) @ [QueryingEvent False, SendAnalytics (cause_message cause)]"
    by (simp add: q query_catch_result)
qed

text \<open>Witness for C3: the project store is offline; and a call without identifier.\<close>

theorem query_rejects_only_without_id_witness:
  "truthy (Some ''P1'') \<and>
   query_try ordinalCompare (store_get (Offline not_found)) (pouch (Online saved_docs)) ''P1''
     (set_querying True initial) = (Inl not_found, set_querying True initial) \<and>
   query ordinalCompare (store_get (Offline not_found)) (pouch (Online saved_docs)) (Some ''P1'') initial =
     (Inr [], \<lparr>projectId = None, data = None, querying = Some False, fullQuery = False,
        events = [QueryingEvent True, QueryingEvent False, SendAnalytics ''missing'']\<rparr>) \<and>
   query ordinalCompare (store_get (Offline not_found)) (pouch (Online saved_docs)) None initial =
     (Inl missing_id, initial)"
proof -
  have t: "truthy (Some ''P1'')" by (simp add: truthy_def)
  have f: "query_try ordinalCompare (store_get (Offline not_found)) (pouch (Online saved_docs)) (the (Some ''P1''))
     (set_querying True initial) = (Inl not_found, set_querying True initial)"
    by (simp add: store_failures_throw(1) store_get_def)
  have n: "\<not> truthy None" by (simp add: truthy_def)
  note inst1 = query_rejects_only_without_id
    [of "Some ''P1''" ordinalCompare "store_get (Offline not_found)" "pouch (Online saved_docs)" initial]
  note inst2 = query_rejects_only_without_id
    [of None ordinalCompare "store_get (Offline not_found)" "pouch (Online saved_docs)" initial]
  from inst1 t f have
    "fst (query ordinalCompare (store_get (Offline not_found)) (pouch (Online saved_docs)) (Some ''P1'') initial) = Inr []"
    by blast
  moreover have "snd (query ordinalCompare (store_get (Offline not_found)) (pouch (Online saved_docs)) (Some ''P1'') initial) =
     \<lparr>projectId = None, data = None, querying = Some False, fullQuery = False,
        events = [QueryingEvent True, QueryingEvent False, SendAnalytics ''missing'']\<rparr>"
    by (simp add: query_def truthy_def store_failures_throw(1) store_get_def query_catch_def
        set_querying_def initial_def cause_message_def not_found_def Let_def)
  ultimately have "query ordinalCompare (store_get (Offline not_found)) (pouch (Online saved_docs)) (Some ''P1'') initial =
     (Inr [], \<lparr>projectId = None, data = None, querying = Some False, fullQuery = False,
        events = [QueryingEvent True, QueryingEvent False, SendAnalytics ''missing'']\<rparr>)"
    by (simp add: prod_eq_iff)
  with t f inst2 n show ?thesis by simp
qed

section \<open>The lookup by the project's list\<close>

lemma str_indexOf_from_found:
  "0 \<le> i \<Longrightarrow> (str_indexOf_from s pat i \<noteq> -1) = sublist pat s"
proof (induction s arbitrary: i)
  case Nil
  then show ?case by auto
next
  case (Cons c cs)
  have "(str_indexOf_from cs pat (i + 1) \<noteq> -1) = sublist pat cs"
    using Cons.prems by (intro Cons.IH) simp
  with Cons.prems show ?case
    by (auto simp: sublist_Cons_right)
qed

lemma str_indexOf_found: "(str_indexOf s pat \<noteq> -1) = sublist pat s"
  by (simp add: str_indexOf_def str_indexOf_from_found)

lemma collect_docs_eq:
  "collect_docs rows acc =
     acc @ List.map_filter (\<lambda>r. if row_error r then None else row_doc r) rows"
proof (induction rows arbitrary: acc)
  case Nil
  then show ?case by simp
next
  case (Cons item rest)
  then show ?case by (cases "row_doc item") simp_all
qed

lemma collect_key_rows: "collect_docs (map (key_row kvs) keys) [] = resolved kvs keys"
proof -
  have "(\<lambda>r. if row_error r then None else row_doc r) (key_row kvs k) = resolve kvs k" for k
    by (simp add: key_row_def resolve_def split: option.splits)
  then show ?thesis
    unfolding collect_docs_eq resolved_def
    by (induction keys) (simp_all split: option.splits)
qed

lemma getProjectRequest_pouch:
  "getProjectRequest (pouch (Online kvs)) keys = Inr (resolved kvs keys)"
  by (simp add: getProjectRequest_def pouch_def store_allDocs_keys_def collect_key_rows)

lemma scoped_fields:
  "doc_id (scoped d) = doc_id d \<and> doc_rev (scoped d) = doc_rev d \<and> name (scoped d) = name d \<and>
   projectOrder (scoped d) = None \<and> legacyProject (scoped d) = None \<and>
   projects (scoped d) = None \<and> extra (scoped d) = []"
  by (simp add: scoped_def)

lemma mset_prepareData: "mset (prepareData lc xs) = mset xs"
  by (simp add: prepareData_def mset_array_sort)

lemma mset_setDataScope:
  "mset (setDataScope fq xs) = image_mset (if fq then (\<lambda>d. d) else scoped) (mset xs)"
  by (simp add: setDataScope_def)

lemma query_try_listed:
  assumes "pdb pid = Inr doc" and "requests doc = Some keys" and "keys \<noteq> []"
  shows "query_try lc pdb sdb pid st =
    (case getProjectRequest sdb keys of
       Inl cause \<Rightarrow> (Inl cause, st)
     | Inr found \<Rightarrow> (Inr (setDataScope (fullQuery st) (prepareData lc found)), set_querying False st))"
  using assms by (simp add: query_try_def readProjectRequests_def Let_def split: sum.splits)

lemma fullQuery_set_querying: "fullQuery (set_querying v st) = fullQuery st"
  by (simp add: set_querying_def)

text \<open>
  Claim C1. When the project document exists and lists request identifiers, \<open>query\<close>
  resolves to the documents of the list that resolve in the store (unknown and deleted
  ones are dropped without error), as a multiset, each one whole under \<open>fullQuery\<close> and
  otherwise reduced to \<open>_id\<close>, \<open>_rev\<close> and \<open>name\<close> with every other property absent.
\<close>

theorem query_returns_listed_documents:
  assumes "pid \<noteq> []" and "pdb pid = Inr doc" and "requests doc = Some keys" and "keys \<noteq> []"
  shows "\<exists>rs. query lc pdb (pouch (Online kvs)) (Some pid) st =
           (Inr rs, set_querying False (set_querying True st)) \<and>
         mset rs = image_mset (if fullQuery st then (\<lambda>d. d) else scoped) (mset (resolved kvs keys)) \<and>
         (\<forall>d. doc_id (scoped d) = doc_id d \<and> doc_rev (scoped d) = doc_rev d \<and>
              name (scoped d) = name d \<and> projectOrder (scoped d) = None \<and>
              legacyProject (scoped d) = None \<and> projects (scoped d) = None \<and> extra (scoped d) = [])"
proof -
  let ?rs = "setDataScope (fullQuery st) (prepareData lc (resolved kvs keys))"
  have "query_try lc pdb (pouch (Online kvs)) pid (set_querying True st) =
      (Inr ?rs, set_querying False (set_querying True st))"
    using query_try_listed [of pdb pid doc keys lc "pouch (Online kvs)" "set_querying True st"] assms(2,3,4)
    by (simp add: getProjectRequest_pouch fullQuery_set_querying)
  then have "query lc pdb (pouch (Online kvs)) (Some pid) st =
      (Inr ?rs, set_querying False (set_querying True st))"
    using assms(1) by (simp add: query_def truthy_def)
  moreover have "mset ?rs =
      image_mset (if fullQuery st then (\<lambda>d. d) else scoped) (mset (resolved kvs keys))"
    by (simp only: mset_setDataScope mset_prepareData)
  ultimately show ?thesis
    using scoped_fields by blast
qed

text \<open>Witness for C1: project \<open>P1\<close> lists \<open>b\<close>, an unknown key, a deleted document and \<open>a\<close>.\<close>

theorem query_returns_listed_documents_witness:
  "''P1'' \<noteq> [] \<and>
   store_get (Online project_docs) ''P1'' =
     Inr \<lparr>project_id = ''P1'', requests = Some [''b'', ''gone'', ''d'', ''a'']\<rparr> \<and>
   [''b'', ''gone'', ''d'', ''a''] \<noteq> [] \<and>
   resolved saved_docs [''b'', ''gone'', ''d'', ''a''] = [beta, alpha] \<and>
   (\<exists>rs. query ordinalCompare (store_get (Online project_docs)) (pouch (Online saved_docs))
           (Some ''P1'') initial = (Inr rs, set_querying False (set_querying True initial)) \<and>
         mset rs = {#scoped beta, scoped alpha#})"
proof -
  have p: "store_get (Online project_docs) ''P1'' =
     Inr \<lparr>project_id = ''P1'', requests = Some [''b'', ''gone'', ''d'', ''a'']\<rparr>"
    by (simp add: store_get_def project_docs_def)
  have r: "resolved saved_docs [''b'', ''gone'', ''d'', ''a''] = [beta, alpha]"
    by (simp add: resolved_def resolve_def saved_docs_def)
  have f: "\<not> fullQuery initial" by (simp add: initial_def)
  show ?thesis
    using query_returns_listed_documents
      [of "''P1''" "store_get (Online project_docs)"
          "\<lparr>project_id = ''P1'', requests = Some [''b'', ''gone'', ''d'', ''a'']\<rparr>"
          "[''b'', ''gone'', ''d'', ''a'']" ordinalCompare saved_docs initial]
    by (simp add: p r f, blast)
qed

section \<open>The legacy fallback\<close>

lemma filter_rows_listing:
  "filter_rows pid (List.map_filter listing_row l) =
     Inr (List.map_filter listing_row (filter (\<lambda>kv. sublist pid (fst kv)) l))"
proof (induction l)
  case Nil
  then show ?case by simp
next
  case (Cons kv l)
  then show ?case
    by (cases "snd kv") (simp_all add: listing_row_def str_indexOf_found)
qed

lemma get_each_listing:
  assumes "distinct (map fst kvs)" and "set l \<subseteq> set kvs"
  shows "get_each (pouch (Online kvs)) (List.map_filter listing_row l) = Inr (List.map_filter snd l)"
  using assms(2)
proof (induction l)
  case Nil
  then show ?case by simp
next
  case (Cons kv l)
  obtain k v where kv: "kv = (k, v)" by (cases kv)
  have ih: "get_each (pouch (Online kvs)) (List.map_filter listing_row l) = Inr (List.map_filter snd l)"
    using Cons by simp
  have m: "map_of kvs k = Some v"
    using assms(1) Cons.prems kv by simp
  show ?case
  proof (cases v)
    case None
    then have "listing_row kv = None" by (simp add: kv listing_row_def)
    with ih None kv show ?thesis by simp
  next
    case (Some d)
    then have r: "listing_row (k, Some d) = Some \<lparr>row_id = Some k, row_error = False, row_doc = None\<rparr>"
      by (simp add: listing_row_def)
    have g: "db_get (pouch (Online kvs)) k = Inr d"
      using m Some by (simp add: pouch_def store_get_def)
    show ?thesis by (simp add: r g ih kv Some)
  qed
qed

lemma matching_eq:
  "matching kvs pid = List.map_filter snd (filter (\<lambda>kv. sublist pid (fst kv)) kvs)"
  unfolding matching_def
  by (induction kvs) (simp_all add: live_match_def split: option.splits)

lemma sorted_in_place_eq: "sorted_in_place lc xs = prepareData lc xs"
  by (simp add: sorted_in_place_def prepareData_def)

lemma tryLegacy_pouch:
  assumes "distinct (map fst kvs)"
  shows "tryLegacy lc (pouch (Online kvs)) pid st =
     (Inr (setDataScope (fullQuery st) (prepareData lc (matching kvs pid))), set_querying False st)"
proof -
  have "get_each (pouch (Online kvs))
      (List.map_filter listing_row (filter (\<lambda>kv. sublist pid (fst kv)) kvs)) =
      Inr (matching kvs pid)"
    unfolding matching_eq by (rule get_each_listing [OF assms]) auto
  moreover have "db_allDocs (pouch (Online kvs)) = Inr (Rows (List.map_filter listing_row kvs))"
    by (simp add: pouch_def store_allDocs_def)
  ultimately show ?thesis
    by (simp add: tryLegacy_def filterRequests_def filter_rows_listing sorted_in_place_eq Let_def)
qed

lemma query_try_listless:
  assumes "pdb pid = Inr doc" and "requests doc = None \<or> requests doc = Some []"
  shows "query_try lc pdb sdb pid st = tryLegacy lc sdb pid st"
  using assms by (auto simp: query_try_def readProjectRequests_def)

lemma query_with_id:
  "pid \<noteq> [] \<Longrightarrow> query lc pdb sdb (Some pid) st =
     (case query_try lc pdb sdb pid (set_querying True st) of
        (Inl cause, st') \<Rightarrow> query_catch cause st'
      | (Inr result, st') \<Rightarrow> (Inr result, st'))"
  by (simp add: query_def truthy_def)

lemma tryLegacy_ignores_bulk:
  "tryLegacy lc (sdb\<lparr>db_allDocs_keys := k\<rparr>) pid st = tryLegacy lc sdb pid st"
proof -
  have "get_each (sdb\<lparr>db_allDocs_keys := k\<rparr>) rows = get_each sdb rows" for rows
    by (induction rows) (auto split: sum.splits)
  then show ?thesis by (simp add: tryLegacy_def split: sum.splits)
qed

text \<open>
  Claim C2, as amended. The fallback runs exactly when the project document exists and
  has no list or an empty one: then \<open>query\<close> resolves to the live documents whose
  identifier contains the project identifier, sorted and scoped, each read on its own, and
  the bulk read plays no part. With a non-empty list the listing and the single reads
  play no part. When the project read rejects, as it does for an absent document, the
  cause is caught and reported and \<open>query\<close> resolves to the empty list.
\<close>

theorem fallback_needs_listless_project:
  assumes "pid \<noteq> []"
  shows "(\<forall>doc. pdb pid = Inr doc \<and> (requests doc = None \<or> requests doc = Some []) \<longrightarrow>
            (distinct (map fst kvs) \<longrightarrow>
               query lc pdb (pouch (Online kvs)) (Some pid) st =
                 (Inr (setDataScope (fullQuery st) (prepareData lc (matching kvs pid))),
                  set_querying False (set_querying True st))) \<and>
            (\<forall>k. query lc pdb (sdb\<lparr>db_allDocs_keys := k\<rparr>) (Some pid) st =
                 query lc pdb sdb (Some pid) st)) \<and>
         (\<forall>doc keys g a. pdb pid = Inr doc \<and> requests doc = Some keys \<and> keys \<noteq> [] \<longrightarrow>
            query lc pdb (sdb\<lparr>db_get := g, db_allDocs := a\<rparr>) (Some pid) st =
              query lc pdb sdb (Some pid) st) \<and>
         (\<forall>cause. pdb pid = Inl cause \<longrightarrow>
            query lc pdb sdb (Some pid) st =
              (Inr [], (set_querying True st)\<lparr>querying := Some False,
                 events := events (set_querying True st) @
                   [QueryingEvent False, SendAnalytics (cause_message cause)]\<rparr>))"
proof (intro conjI allI impI)
  fix doc
  assume d: "pdb pid = Inr doc \<and> (requests doc = None \<or> requests doc = Some [])"
    and k: "distinct (map fst kvs)"
  from d have "query_try lc pdb (pouch (Online kvs)) pid (set_querying True st) =
      tryLegacy lc (pouch (Online kvs)) pid (set_querying True st)"
    by (intro query_try_listless) auto
  then show "query lc pdb (pouch (Online kvs)) (Some pid) st =
      (Inr (setDataScope (fullQuery st) (prepareData lc (matching kvs pid))),
       set_querying False (set_querying True st))"
    using assms by (simp add: query_with_id tryLegacy_pouch [OF k] fullQuery_set_querying)
next
  fix doc k
  assume d: "pdb pid = Inr doc \<and> (requests doc = None \<or> requests doc = Some [])"
  then have "query_try lc pdb s pid (set_querying True st) =
      tryLegacy lc s pid (set_querying True st)" for s
    by (intro query_try_listless) auto
  then show "query lc pdb (sdb\<lparr>db_allDocs_keys := k\<rparr>) (Some pid) st = query lc pdb sdb (Some pid) st"
    using assms by (simp add: query_with_id tryLegacy_ignores_bulk)
next
  fix doc keys g a
  assume d: "pdb pid = Inr doc \<and> requests doc = Some keys \<and> keys \<noteq> []"
  have "getProjectRequest (sdb\<lparr>db_get := g, db_allDocs := a\<rparr>) keys = getProjectRequest sdb keys"
    by (simp add: getProjectRequest_def)
  then have "query_try lc pdb (sdb\<lparr>db_get := g, db_allDocs := a\<rparr>) pid (set_querying True st) =
      query_try lc pdb sdb pid (set_querying True st)"
    using d query_try_listed [of pdb pid doc keys lc _ "set_querying True st"] by simp
  then show "query lc pdb (sdb\<lparr>db_get := g, db_allDocs := a\<rparr>) (Some pid) st =
      query lc pdb sdb (Some pid) st"
    using assms by (simp add: query_with_id)
next
  fix cause
  assume "pdb pid = Inl cause"
  then have "query_try lc pdb sdb pid (set_querying True st) = (Inl cause, set_querying True st)"
    by (simp add: query_try_def readProjectRequests_def)
  then show "query lc pdb sdb (Some pid) st =
      (Inr [], (set_querying True st)\<lparr>querying := Some False,
         events := events (set_querying True st) @
           [QueryingEvent False, SendAnalytics (cause_message cause)]\<rparr>)"
    using assms by (simp add: query_with_id query_catch_def set_querying_def Let_def)
qed

text \<open>Witness for C2: \<open>P2\<close> has no list, \<open>P1\<close> has one, \<open>P3\<close> has no document.\<close>

theorem fallback_needs_listless_project_witness:
  "''P2'' \<noteq> [] \<and> distinct (map fst saved_docs) \<and>
   store_get (Online project_docs) ''P2'' = Inr \<lparr>project_id = ''P2'', requests = None\<rparr> \<and>
   matching saved_docs ''P2'' = [legacy1] \<and>
   query ordinalCompare (store_get (Online project_docs)) (pouch (Online saved_docs)) (Some ''P2'') initial =
     (Inr [scoped legacy1], set_querying False (set_querying True initial)) \<and>
   store_get (Online project_docs) ''P3'' = Inl not_found \<and>
   fst (query ordinalCompare (store_get (Online project_docs)) (pouch (Online saved_docs)) (Some ''P3'') initial) =
     Inr [] \<and>
   query ordinalCompare (store_get (Online project_docs))
     ((pouch (Online saved_docs))\<lparr>db_allDocs_keys := \<lambda>keys. Inl not_found\<rparr>) (Some ''P2'') initial =
     query ordinalCompare (store_get (Online project_docs)) (pouch (Online saved_docs)) (Some ''P2'') initial \<and>
   store_get (Online project_docs) ''P1'' =
     Inr \<lparr>project_id = ''P1'', requests = Some [''b'', ''gone'', ''d'', ''a'']\<rparr> \<and>
   query ordinalCompare (store_get (Online project_docs))
     ((pouch (Online saved_docs))\<lparr>db_get := \<lambda>k. Inl not_found, db_allDocs := Inl not_found\<rparr>)
     (Some ''P1'') initial =
     query ordinalCompare (store_get (Online project_docs)) (pouch (Online saved_docs)) (Some ''P1'') initial"
proof -
  have d: "distinct (map fst saved_docs)" by (simp add: saved_docs_def)
  have p1: "store_get (Online project_docs) ''P1'' =
     Inr \<lparr>project_id = ''P1'', requests = Some [''b'', ''gone'', ''d'', ''a'']\<rparr>"
    by (simp add: store_get_def project_docs_def)
  note c = fallback_needs_listless_project
      [of "''P1''" "store_get (Online project_docs)" saved_docs ordinalCompare initial
          "pouch (Online saved_docs)"]
  have p: "store_get (Online project_docs) ''P2'' = Inr \<lparr>project_id = ''P2'', requests = None\<rparr>"
    by (simp add: store_get_def project_docs_def)
  have q: "store_get (Online project_docs) ''P3'' = Inl not_found"
    by (simp add: store_get_def project_docs_def)
  have m: "matching saved_docs ''P2'' = [legacy1]"
    by (simp add: matching_def live_match_def saved_docs_def sublist_code)
  have f: "\<not> fullQuery initial" by (simp add: initial_def)
  have s: "prepareData ordinalCompare [legacy1] = [legacy1]"
    by (simp add: prepareData_def array_sort_def)
  note a = fallback_needs_listless_project
      [of "''P2''" "store_get (Online project_docs)" saved_docs ordinalCompare initial
          "pouch (Online saved_docs)"]
  note b = fallback_needs_listless_project
      [of "''P3''" "store_get (Online project_docs)" saved_docs ordinalCompare initial
          "pouch (Online saved_docs)"]
  have "query ordinalCompare (store_get (Online project_docs)) (pouch (Online saved_docs)) (Some ''P2'') initial =
     (Inr [scoped legacy1], set_querying False (set_querying True initial))"
    using a d p by (simp add: m f s setDataScope_def)
  moreover have "fst (query ordinalCompare (store_get (Online project_docs)) (pouch (Online saved_docs)) (Some ''P3'') initial) =
     Inr []"
    using b q by simp
  moreover have "query ordinalCompare (store_get (Online project_docs))
     ((pouch (Online saved_docs))\<lparr>db_allDocs_keys := \<lambda>keys. Inl not_found\<rparr>) (Some ''P2'') initial =
     query ordinalCompare (store_get (Online project_docs)) (pouch (Online saved_docs)) (Some ''P2'') initial"
    using a p by simp
  moreover have "query ordinalCompare (store_get (Online project_docs))
     ((pouch (Online saved_docs))\<lparr>db_get := \<lambda>k. Inl not_found, db_allDocs := Inl not_found\<rparr>)
     (Some ''P1'') initial =
     query ordinalCompare (store_get (Online project_docs)) (pouch (Online saved_docs)) (Some ''P1'') initial"
    using c p1 by simp
  ultimately show ?thesis using d p p1 q m by simp
qed

text \<open>
  Counterexample to C2 as stated: there is no project document \<open>P3\<close>, the saved store
  holds a request whose identifier contains \<open>P3\<close>, and \<open>query\<close> resolves to the empty
  list after reporting the failed read.
\<close>


theorem absent_project_counterexample:
  "store_get (Online project_docs) ''P3'' = Inl not_found \<and>
   matching saved_docs ''P3'' = [legacy2] \<and>
   query ordinalCompare (store_get (Online project_docs)) (pouch (Online saved_docs)) (Some ''P3'') initial =
     (Inr [], \<lparr>projectId = None, data = None, querying = Some False, fullQuery = False,
        events = [QueryingEvent True, QueryingEvent False, SendAnalytics ''missing'']\<rparr>)"
  by (simp add: store_get_def project_docs_def matching_def live_match_def saved_docs_def sublist_code
      query_def truthy_def query_try_def readProjectRequests_def query_catch_def set_querying_def
      initial_def cause_message_def not_found_def Let_def)

section \<open>The order of the published list\<close>

lemma spec_ordered_iff: "spec_ordered lc a b \<longleftrightarrow> compareRequests lc a b \<le> 0"
  by (auto simp: spec_ordered_def compareRequests_def order_gt_def order_lt_def
      split: option.splits)

lemma consistent_flip: "consistent c \<Longrightarrow> 0 < c a b \<Longrightarrow> c b a < 0"
  by (simp add: consistent_def)

lemma consistent_trans: "consistent c \<Longrightarrow> c a b \<le> 0 \<Longrightarrow> c b d \<le> 0 \<Longrightarrow> c a d \<le> 0"
  unfolding consistent_def by blast

lemma consistent_zero_sym: "consistent c \<Longrightarrow> c a b = 0 \<Longrightarrow> c b a = 0"
proof -
  assume c: "consistent c" and z: "c a b = 0"
  have "\<not> 0 < c b a" using c z by (metis consistent_def less_irrefl)
  moreover have "\<not> c b a < 0" using c z by (metis consistent_def less_irrefl)
  ultimately show "c b a = 0" by simp
qed

lemma compareRequests_flip:
  assumes "consistent lc" and "0 < compareRequests lc a b"
  shows "compareRequests lc b a \<le> 0"
proof (cases "order_gt (projectOrder a) (projectOrder b)")
  case True
  then have "order_lt (projectOrder b) (projectOrder a)" "\<not> order_gt (projectOrder b) (projectOrder a)"
    by (auto simp: order_gt_def order_lt_def split: option.splits)
  then show ?thesis by (simp add: compareRequests_def)
next
  case False
  with assms(2) have nl: "\<not> order_lt (projectOrder a) (projectOrder b)"
    and pos: "0 < lc (name_or_empty a) (name_or_empty b)"
    by (auto simp: compareRequests_def split: if_splits)
  from False nl have "\<not> order_gt (projectOrder b) (projectOrder a)"
    "\<not> order_lt (projectOrder b) (projectOrder a)"
    by (auto simp: order_gt_def order_lt_def split: option.splits)
  moreover have "lc (name_or_empty b) (name_or_empty a) < 0"
    using assms(1) pos by (rule consistent_flip)
  ultimately show ?thesis by (simp add: compareRequests_def)
qed

lemma compareRequests_trans_present:
  assumes "consistent lc"
    and "projectOrder a \<noteq> None" "projectOrder b \<noteq> None" "projectOrder d \<noteq> None"
    and "compareRequests lc a b \<le> 0" "compareRequests lc b d \<le> 0"
  shows "compareRequests lc a d \<le> 0"
proof -
  obtain x y z where o: "projectOrder a = Some x" "projectOrder b = Some y" "projectOrder d = Some z"
    using assms(2-4) by auto
  have ab: "x < y \<or> (x = y \<and> lc (name_or_empty a) (name_or_empty b) \<le> 0)"
    using assms(5) o by (simp add: spec_ordered_iff [symmetric] spec_ordered_def)
  have bd: "y < z \<or> (y = z \<and> lc (name_or_empty b) (name_or_empty d) \<le> 0)"
    using assms(6) o by (simp add: spec_ordered_iff [symmetric] spec_ordered_def)
  have "x < z \<or> (x = z \<and> lc (name_or_empty a) (name_or_empty d) \<le> 0)"
    using ab bd consistent_trans [OF assms(1)] by (metis less_trans)
  then show ?thesis
    using o by (simp add: spec_ordered_iff [symmetric] spec_ordered_def)
qed

lemma compareRequests_trans_absent:
  assumes "consistent lc"
    and "projectOrder a = None" "projectOrder b = None" "projectOrder d = None"
    and "compareRequests lc a b \<le> 0" "compareRequests lc b d \<le> 0"
  shows "compareRequests lc a d \<le> 0"
  using assms consistent_trans [OF assms(1)]
  by (simp add: spec_ordered_iff [symmetric] spec_ordered_def)

lemma successively_prepareData:
  assumes "consistent lc"
  shows "successively (spec_ordered lc) (prepareData lc xs)"
proof -
  have "successively (\<lambda>a b. compareRequests lc a b \<le> 0) (array_sort (compareRequests lc) xs)"
    by (rule successively_array_sort) (rule compareRequests_flip [OF assms])
  then show ?thesis
    by (simp add: prepareData_def spec_ordered_iff [abs_def])
qed

lemma sorted_prepareData:
  assumes "consistent lc" and "uniform_order xs"
  shows "sorted_wrt (spec_ordered lc) (prepareData lc xs)"
proof -
  have "sorted_wrt (\<lambda>a b. compareRequests lc a b \<le> 0) (array_sort (compareRequests lc) xs)"
  proof (rule sorted_wrt_array_sort)
    fix x y assume "0 < compareRequests lc x y"
    then show "compareRequests lc y x \<le> 0" by (rule compareRequests_flip [OF assms(1)])
  next
    fix x y z
    assume m: "x \<in> set xs" "y \<in> set xs" "z \<in> set xs"
      and c: "compareRequests lc x y \<le> 0" "compareRequests lc y z \<le> 0"
    from assms(2) consider "list_all (\<lambda>x. projectOrder x \<noteq> None) xs"
      | "list_all (\<lambda>x. projectOrder x = None) xs"
      unfolding uniform_order_def by blast
    then show "compareRequests lc x z \<le> 0"
    proof cases
      case 1
      with m have "projectOrder x \<noteq> None" "projectOrder y \<noteq> None" "projectOrder z \<noteq> None"
        by (simp_all add: list_all_iff)
      then show ?thesis using c by (rule compareRequests_trans_present [OF assms(1)])
    next
      case 2
      with m have "projectOrder x = None" "projectOrder y = None" "projectOrder z = None"
        by (simp_all add: list_all_iff)
      then show ?thesis using c by (rule compareRequests_trans_absent [OF assms(1)])
    qed
  qed
  then show ?thesis
    by (simp add: prepareData_def spec_ordered_iff [abs_def])
qed

lemma prepareData_fixpoint:
  "successively (spec_ordered lc) xs \<Longrightarrow> prepareData lc xs = xs"
  by (simp add: prepareData_def spec_ordered_iff [abs_def] array_sort_fixpoint)

lemma tied_compare:
  assumes "consistent lc" and "tied lc r x" and "tied lc r y"
  shows "compareRequests lc x y \<le> 0"
proof -
  have po: "projectOrder x = projectOrder y" using assms(2,3) by (simp add: tied_def)
  have "lc (name_or_empty x) (name_or_empty r) = 0"
    using assms(1,2) by (simp add: tied_def consistent_zero_sym)
  moreover have "lc (name_or_empty r) (name_or_empty y) = 0"
    using assms(3) by (simp add: tied_def)
  ultimately have "lc (name_or_empty x) (name_or_empty y) \<le> 0"
    using consistent_trans [OF assms(1), of "name_or_empty x" "name_or_empty r" "name_or_empty y"]
    by simp
  then show ?thesis
    using po by (simp add: compareRequests_def order_gt_def order_lt_def split: option.splits)
qed

lemma stable_prepareData:
  assumes "consistent lc"
  shows "filter (tied lc r) (prepareData lc xs) = filter (tied lc r) xs"
proof -
  have "filter (tied lc r) (array_sort (compareRequests lc) xs) = filter (tied lc r) xs"
    by (rule filter_array_sort) (rule tied_compare [OF assms])
  then show ?thesis by (simp add: prepareData_def)
qed

text \<open>The comparison is consistent on a list whose records all have a \<open>projectOrder\<close>, or none.\<close>

lemma uniform_consistent_on:
  assumes "consistent lc" and "uniform_order xs"
  shows "consistent_on lc xs"
proof -
  have "compareRequests lc x z \<le> 0"
    if "x \<in> set xs" "y \<in> set xs" "z \<in> set xs"
      "compareRequests lc x y \<le> 0" "compareRequests lc y z \<le> 0" for x y z
  proof -
    from assms(2) consider "list_all (\<lambda>x. projectOrder x \<noteq> None) xs"
      | "list_all (\<lambda>x. projectOrder x = None) xs"
      unfolding uniform_order_def by blast
    then show ?thesis
    proof cases
      case 1
      with that(1-3) have "projectOrder x \<noteq> None" "projectOrder y \<noteq> None" "projectOrder z \<noteq> None"
        by (simp_all add: list_all_iff)
      then show ?thesis using that(4,5) by (rule compareRequests_trans_present [OF assms(1)])
    next
      case 2
      with that(1-3) have "projectOrder x = None" "projectOrder y = None" "projectOrder z = None"
        by (simp_all add: list_all_iff)
      then show ?thesis using that(4,5) by (rule compareRequests_trans_absent [OF assms(1)])
    qed
  qed
  then show ?thesis
    unfolding consistent_on_def list_all_iff by (meson not_less)
qed

text \<open>Swapping the arguments of the comparison swaps the sign.\<close>

lemma compareRequests_not_less:
  assumes "consistent lc" and "compareRequests lc a b \<le> 0"
  shows "\<not> compareRequests lc b a < 0"
proof
  assume l: "compareRequests lc b a < 0"
  have s: "lc (name_or_empty b) (name_or_empty a) < 0 \<Longrightarrow> 0 < lc (name_or_empty a) (name_or_empty b)"
    using assms(1) by (simp add: consistent_def)
  show False
  proof (cases "order_lt (projectOrder b) (projectOrder a)")
    case True
    then have "order_gt (projectOrder a) (projectOrder b)"
      by (auto simp: order_gt_def order_lt_def split: option.splits)
    with assms(2) show False by (simp add: compareRequests_def)
  next
    case False
    with l have g: "\<not> order_gt (projectOrder b) (projectOrder a)"
      and n: "lc (name_or_empty b) (name_or_empty a) < 0"
      by (auto simp: compareRequests_def split: if_splits)
    from False g have "\<not> order_gt (projectOrder a) (projectOrder b)"
      "\<not> order_lt (projectOrder a) (projectOrder b)"
      by (auto simp: order_gt_def order_lt_def split: option.splits)
    with assms(2) have "lc (name_or_empty a) (name_or_empty b) \<le> 0"
      by (simp add: compareRequests_def)
    with s [OF n] show False by simp
  qed
qed

lemma compareRequests_flip_strict:
  assumes "consistent lc" and "0 < compareRequests lc a b"
  shows "compareRequests lc b a < 0"
proof (cases "order_gt (projectOrder a) (projectOrder b)")
  case True
  then have "order_lt (projectOrder b) (projectOrder a)" "\<not> order_gt (projectOrder b) (projectOrder a)"
    by (auto simp: order_gt_def order_lt_def split: option.splits)
  then show ?thesis by (simp add: compareRequests_def)
next
  case False
  with assms(2) have nl: "\<not> order_lt (projectOrder a) (projectOrder b)"
    and pos: "0 < lc (name_or_empty a) (name_or_empty b)"
    by (auto simp: compareRequests_def split: if_splits)
  from False nl have "\<not> order_gt (projectOrder b) (projectOrder a)"
    "\<not> order_lt (projectOrder b) (projectOrder a)"
    by (auto simp: order_gt_def order_lt_def split: option.splits)
  moreover have "lc (name_or_empty b) (name_or_empty a) < 0"
    using assms(1) pos by (rule consistent_flip)
  ultimately show ?thesis by (simp add: compareRequests_def)
qed

text \<open>\<open>_prepareData\<close> as the engine runs it.\<close>

lemma prepareData_v8_fixpoint:
  assumes "consistent lc" and "successively (spec_ordered lc) xs"
  shows "prepareData_v8 lc xs = xs"
proof -
  have "engine_sort (compareRequests lc) xs = xs"
  proof (rule engine_sort_fixpoint)
    show "\<not> compareRequests lc b a < 0" if "compareRequests lc a b \<le> 0" for a b
      using assms(1) that by (rule compareRequests_not_less)
    show "successively (\<lambda>a b. compareRequests lc a b \<le> 0) xs"
      using assms(2) by (simp add: spec_ordered_iff [abs_def])
  qed
  then show ?thesis by (simp add: prepareData_v8_def)
qed

lemma successively_prepareData_v8:
  assumes "consistent lc"
  shows "successively (spec_ordered lc) (prepareData_v8 lc xs)"
proof -
  have "successively (\<lambda>a b. compareRequests lc a b \<le> 0) (engine_sort (compareRequests lc) xs)"
    by (rule engine_sort_ordered) (rule compareRequests_flip_strict [OF assms])
  then show ?thesis
    by (simp add: prepareData_v8_def spec_ordered_iff [abs_def])
qed

lemma stable_prepareData_v8:
  assumes "consistent lc" and "consistent_on lc xs"
  shows "filter (tied lc r) (prepareData_v8 lc xs) = filter (tied lc r) xs"
proof (cases "length xs = 0")
  case True
  then show ?thesis by (simp add: prepareData_v8_def)
next
  case False
  have "filter (tied lc r) (engine_sort (compareRequests lc) xs) = filter (tied lc r) xs"
  proof (rule engine_sort_stable)
    show "compareRequests lc b a < 0" if "0 < compareRequests lc a b" for a b
      using assms(1) that by (rule compareRequests_flip_strict)
    show "0 < compareRequests lc b a" if "compareRequests lc a b < 0" for a b
      using compareRequests_not_less [OF assms(1), of b a] that by force
    show "compareRequests lc x z \<le> 0"
      if "x \<in> set xs" "y \<in> set xs" "z \<in> set xs"
        "compareRequests lc x y \<le> 0" "compareRequests lc y z \<le> 0" for x y z
    proof -
      have "\<not> (compareRequests lc x y \<le> 0 \<and> compareRequests lc y z \<le> 0 \<and>
          0 < compareRequests lc x z)"
        using assms(2) that(1-3) unfolding consistent_on_def list_all_iff by blast
      with that(4,5) show ?thesis by simp
    qed
    show "compareRequests lc x y = 0" if "tied lc r x" "tied lc r y" for x y
    proof -
      have "compareRequests lc x y \<le> 0" using assms(1) that by (rule tied_compare)
      moreover have "compareRequests lc y x \<le> 0" using assms(1) that(2,1) by (rule tied_compare)
      then have "\<not> compareRequests lc x y < 0" using assms(1) by (rule compareRequests_not_less [rotated])
      ultimately show ?thesis by simp
    qed
  qed
  with False show ?thesis by (simp add: prepareData_v8_def)
qed

lemma prepareData_v8_eq:
  assumes "consistent lc" and "consistent_on lc xs"
  shows "prepareData_v8 lc xs = prepareData lc xs"
proof -
  have "engine_sort (compareRequests lc) xs = array_sort (compareRequests lc) xs"
  proof (rule engine_sort_eq_array_sort)
    show "compareRequests lc b a < 0" if "0 < compareRequests lc a b" for a b
      using assms(1) that by (rule compareRequests_flip_strict)
    show "0 < compareRequests lc b a" if "compareRequests lc a b < 0" for a b
      using compareRequests_not_less [OF assms(1), of b a] that by force
    show "compareRequests lc x z \<le> 0"
      if "x \<in> set xs" "y \<in> set xs" "z \<in> set xs"
        "compareRequests lc x y \<le> 0" "compareRequests lc y z \<le> 0" for x y z
    proof -
      have "\<not> (compareRequests lc x y \<le> 0 \<and> compareRequests lc y z \<le> 0 \<and>
          0 < compareRequests lc x z)"
        using assms(2) that(1-3) unfolding consistent_on_def list_all_iff by blast
      with that(4,5) show ?thesis by simp
    qed
  qed
  then show ?thesis by (simp add: prepareData_v8_def prepareData_def)
qed

lemma example_names:
  "name_or_empty alpha = ''Alpha''" "name_or_empty alpha2 = ''Alpha''" "name_or_empty beta = ''Beta''"
  "name_or_empty gamma = ''Gamma''" "name_or_empty omega = ''Omega''"
  by (simp_all add: name_or_empty_def truthy_def alpha_def alpha2_def beta_def gamma_def omega_def
      saved_request_def)

lemma example_orders:
  "projectOrder alpha = Some 1" "projectOrder alpha2 = Some 1" "projectOrder beta = Some 2"
  "projectOrder gamma = None" "projectOrder omega = Some 1"
  by (simp_all add: alpha_def alpha2_def beta_def gamma_def omega_def saved_request_def)

lemma example_ids:
  "doc_id alpha = ''a''" "doc_id alpha2 = ''a2''" "doc_id beta = ''b''" "doc_id gamma = ''c''"
  "doc_id omega = ''o''"
  by (simp_all add: alpha_def alpha2_def beta_def gamma_def omega_def saved_request_def)

lemma example_compare:
  "compareRequests lc beta alpha = 1" "compareRequests lc alpha beta = -1"
  "compareRequests lc beta alpha2 = 1" "compareRequests lc beta omega = 1"
  "compareRequests lc alpha2 beta = -1"
  "compareRequests ordinalCompare alpha2 alpha = 0"
  "compareRequests ordinalCompare gamma alpha = 1"
  "compareRequests ordinalCompare beta gamma = -1"
  "compareRequests ordinalCompare gamma omega = -1"
  by (simp_all add: compareRequests_def order_gt_def order_lt_def example_names example_orders)

lemma omega2_fields:
  "name_or_empty omega2 = ''Omega''" "projectOrder omega2 = Some 1" "doc_id omega2 = ''o2''"
  by (simp_all add: omega2_def saved_request_def name_or_empty_def truthy_def)

lemma uniform_example_compare:
  "compareRequests ordinalCompare omega alpha = 1"
  "compareRequests ordinalCompare alpha2 omega = -1"
  "compareRequests ordinalCompare alpha omega = -1"
  "compareRequests ordinalCompare omega beta = -1"
  "compareRequests ordinalCompare alpha alpha2 = 0"
  "compareRequests ordinalCompare omega alpha2 = 1"
  by (simp_all add: compareRequests_def order_gt_def order_lt_def example_names example_orders)

lemma omega2_compare:
  "compareRequests ordinalCompare omega2 beta = -1"
  "compareRequests ordinalCompare beta omega2 = 1"
  "compareRequests ordinalCompare gamma omega2 = -1"
  "compareRequests ordinalCompare omega gamma = 1"
  "compareRequests ordinalCompare omega omega2 = 0"
  by (simp_all add: compareRequests_def order_gt_def order_lt_def example_names example_orders
      omega2_fields)

lemma query_P1:
  "query lc (store_get (Online project_docs)) (pouch (Online saved_docs)) (Some ''P1'') st =
     (Inr (setDataScope (fullQuery st) [alpha, beta]), set_querying False (set_querying True st))"
proof -
  have p: "store_get (Online project_docs) ''P1'' =
     Inr \<lparr>project_id = ''P1'', requests = Some [''b'', ''gone'', ''d'', ''a'']\<rparr>"
    by (simp add: store_get_def project_docs_def)
  have r: "resolved saved_docs [''b'', ''gone'', ''d'', ''a''] = [beta, alpha]"
    by (simp add: resolved_def resolve_def saved_docs_def)
  have s: "prepareData lc [beta, alpha] = [alpha, beta]"
    by (simp add: prepareData_def array_sort_def example_compare)
  have "query_try lc (store_get (Online project_docs)) (pouch (Online saved_docs)) ''P1''
      (set_querying True st) =
      (Inr (setDataScope (fullQuery st) [alpha, beta]), set_querying False (set_querying True st))"
    using query_try_listed [of "store_get (Online project_docs)" "''P1''" _
        "[''b'', ''gone'', ''d'', ''a'']" lc "pouch (Online saved_docs)" "set_querying True st"] p
    by (simp add: getProjectRequest_pouch r s fullQuery_set_querying)
  then show ?thesis by (simp add: query_def truthy_def)
qed

text \<open>
  Claim C4, as amended. The sort keeps the records and leaves every record ordered before
  its successor under the comparison of the specification (ascending \<open>projectOrder\<close>, a
  missing or equal one being a tie, then ascending name, the empty string for an absent
  name). When every record has a \<open>projectOrder\<close>, or none has, the whole list is
  ascending. For project \<open>P1\<close> with Beta (\<open>projectOrder\<close> 2) and Alpha (1), \<open>query\<close>
  resolves to Alpha, Beta, scoped or whole.
\<close>

theorem sort_orders_neighbours:
  assumes "consistent lc"
  shows "mset (prepareData lc xs) = mset xs \<and>
         successively (spec_ordered lc) (prepareData lc xs) \<and>
         (uniform_order xs \<longrightarrow> sorted_wrt (spec_ordered lc) (prepareData lc xs)) \<and>
         fst (query lc (store_get (Online project_docs)) (pouch (Online saved_docs)) (Some ''P1'')
               initial) = Inr [scoped alpha, scoped beta] \<and>
         fst (query lc (store_get (Online project_docs)) (pouch (Online saved_docs)) (Some ''P1'')
               (initial\<lparr>fullQuery := True\<rparr>)) = Inr [alpha, beta]"
proof (intro conjI impI)
  show "mset (prepareData lc xs) = mset xs" by (rule mset_prepareData)
  show "successively (spec_ordered lc) (prepareData lc xs)"
    by (rule successively_prepareData [OF assms])
  show "sorted_wrt (spec_ordered lc) (prepareData lc xs)" if "uniform_order xs"
    using assms that by (rule sorted_prepareData)
  show "fst (query lc (store_get (Online project_docs)) (pouch (Online saved_docs)) (Some ''P1'')
      initial) = Inr [scoped alpha, scoped beta]"
    by (simp add: query_P1 setDataScope_def initial_def)
  show "fst (query lc (store_get (Online project_docs)) (pouch (Online saved_docs)) (Some ''P1'')
      (initial\<lparr>fullQuery := True\<rparr>)) = Inr [alpha, beta]"
    by (simp add: query_P1 setDataScope_def)
qed

text \<open>Witness for C4, on a list where all records have a \<open>projectOrder\<close> and on one
  where one record has none.\<close>

theorem sort_orders_neighbours_witness:
  "consistent ordinalCompare \<and> uniform_order [beta, alpha2, alpha] \<and>
   prepareData ordinalCompare [beta, alpha2, alpha] = [alpha2, alpha, beta] \<and>
   sorted_wrt (spec_ordered ordinalCompare) [alpha2, alpha, beta] \<and>
   successively (spec_ordered ordinalCompare) [beta, gamma, omega]"
proof -
  have u: "uniform_order [beta, alpha2, alpha]"
    by (simp add: uniform_order_def example_orders)
  have p: "prepareData ordinalCompare [beta, alpha2, alpha] = [alpha2, alpha, beta]"
    by (simp add: prepareData_def array_sort_def example_compare)
  have q: "prepareData ordinalCompare [beta, gamma, omega] = [beta, gamma, omega]"
    by (simp add: prepareData_def array_sort_def example_compare)
  show ?thesis
    using sort_orders_neighbours [OF consistent_ordinalCompare, of "[beta, alpha2, alpha]"]
      sort_orders_neighbours [OF consistent_ordinalCompare, of "[beta, gamma, omega]"]
      consistent_ordinalCompare u
    by (simp only: p q)
qed

text \<open>
  Counterexample to C4 as stated: Beta (\<open>projectOrder\<close> 2), Gamma (none) and Omega (1).
  Each neighbour pair is in order by name, the sort returns the list as it is, and Beta
  stands before Omega although 2 is greater than 1.
\<close>

theorem mixed_order_counterexample:
  "prepareData ordinalCompare [beta, gamma, omega] = [beta, gamma, omega] \<and>
   projectOrder beta = Some 2 \<and> projectOrder gamma = None \<and> projectOrder omega = Some 1 \<and>
   \<not> spec_ordered ordinalCompare beta omega \<and>
   \<not> sorted_wrt (spec_ordered ordinalCompare) (prepareData ordinalCompare [beta, gamma, omega])"
proof -
  have q: "prepareData ordinalCompare [beta, gamma, omega] = [beta, gamma, omega]"
    by (simp add: prepareData_def array_sort_def example_compare)
  have n: "\<not> spec_ordered ordinalCompare beta omega"
    by (simp add: spec_ordered_iff example_compare)
  show ?thesis by (simp add: q n example_orders)
qed

text \<open>
  Claim C8, as amended. On every list on which the comparison is consistent, among them
  every list whose records all have a \<open>projectOrder\<close> or all have none: sorting the result
  of a sort, or a list that is already in order, returns the same list; the records that
  tie with a given record on both keys keep their input order; and the engine returns the
  list that the stable insertion sort returns. On every list of fewer than 64 records,
  consistent or not, the engine returns the result of a sort, and a list whose neighbours
  are in order, as it is.
\<close>

theorem sort_idempotent_stable_where_consistent:
  assumes "consistent lc"
  shows "(consistent_on lc xs \<longrightarrow>
            prepareData lc (prepareData lc xs) = prepareData lc xs \<and>
            (successively (spec_ordered lc) xs \<longrightarrow> prepareData lc xs = xs) \<and>
            (sorted_wrt (spec_ordered lc) xs \<longrightarrow> prepareData lc xs = xs) \<and>
            filter (tied lc r) (prepareData lc xs) = filter (tied lc r) xs \<and>
            prepareData_v8 lc xs = prepareData lc xs) \<and>
         (length xs < 64 \<longrightarrow>
            prepareData_v8 lc (prepareData_v8 lc xs) = prepareData_v8 lc xs \<and>
            (successively (spec_ordered lc) xs \<longrightarrow> prepareData_v8 lc xs = xs))"
proof (intro conjI impI)
  show "prepareData lc (prepareData lc xs) = prepareData lc xs"
    by (rule prepareData_fixpoint) (rule successively_prepareData [OF assms])
  show "prepareData lc xs = xs" if "successively (spec_ordered lc) xs"
    using that by (rule prepareData_fixpoint)
  show "prepareData lc xs = xs" if "sorted_wrt (spec_ordered lc) xs"
    using that by (intro prepareData_fixpoint successively_if_sorted_wrt)
  show "filter (tied lc r) (prepareData lc xs) = filter (tied lc r) xs"
    by (rule stable_prepareData [OF assms])
  show "prepareData_v8 lc xs = prepareData lc xs" if "consistent_on lc xs"
    using assms that by (rule prepareData_v8_eq)
  show "prepareData_v8 lc (prepareData_v8 lc xs) = prepareData_v8 lc xs"
    using assms by (intro prepareData_v8_fixpoint successively_prepareData_v8)
  show "prepareData_v8 lc xs = xs" if "successively (spec_ordered lc) xs"
    using assms that by (rule prepareData_v8_fixpoint)
qed

text \<open>
  Witness for C8: two records named Alpha with \<open>projectOrder\<close> 1 keep their order among
  records that all have a \<open>projectOrder\<close>; the engine returns its own results as they are,
  also on the lists with the record without \<open>projectOrder\<close>.
\<close>

theorem sort_idempotent_stable_where_consistent_witness:
  "consistent ordinalCompare \<and>
   consistent_on ordinalCompare [beta, alpha2, omega, alpha] \<and>
   prepareData ordinalCompare [beta, alpha2, omega, alpha] = [alpha2, alpha, omega, beta] \<and>
   prepareData_v8 ordinalCompare [beta, alpha2, omega, alpha] = [alpha2, alpha, omega, beta] \<and>
   prepareData ordinalCompare [alpha2, alpha, omega, beta] = [alpha2, alpha, omega, beta] \<and>
   tied ordinalCompare alpha alpha2 \<and>
   filter (tied ordinalCompare alpha) (prepareData ordinalCompare [beta, alpha2, omega, alpha]) =
     [alpha2, alpha] \<and>
   consistent_on ordinalCompare [alpha2, alpha, beta] \<and>
   sorted_wrt (spec_ordered ordinalCompare) [alpha2, alpha, beta] \<and>
   successively (spec_ordered ordinalCompare) [alpha2, alpha, beta] \<and>
   prepareData ordinalCompare [alpha2, alpha, beta] = [alpha2, alpha, beta] \<and>
   length [beta, gamma, omega] < 64 \<and>
   successively (spec_ordered ordinalCompare) [beta, gamma, omega] \<and>
   prepareData_v8 ordinalCompare [beta, gamma, omega] = [beta, gamma, omega] \<and>
   length [omega, gamma, beta, omega2] < 64 \<and>
   prepareData_v8 ordinalCompare [omega, gamma, beta, omega2] = [omega2, beta, gamma, omega] \<and>
   prepareData_v8 ordinalCompare [omega2, beta, gamma, omega] = [omega2, beta, gamma, omega]"
proof -
  note c = consistent_ordinalCompare
  have u1: "consistent_on ordinalCompare [beta, alpha2, omega, alpha]"
    using c by (rule uniform_consistent_on) (simp add: uniform_order_def example_orders)
  have u2: "consistent_on ordinalCompare [alpha2, alpha, beta]"
    using c by (rule uniform_consistent_on) (simp add: uniform_order_def example_orders)
  have p: "prepareData ordinalCompare [beta, alpha2, omega, alpha] = [alpha2, alpha, omega, beta]"
    by (simp add: prepareData_def array_sort_def example_compare uniform_example_compare)
  have s: "sorted_wrt (spec_ordered ordinalCompare) [alpha2, alpha, beta]"
    by (simp add: spec_ordered_iff example_compare)
  have s': "successively (spec_ordered ordinalCompare) [alpha2, alpha, beta]"
    by (simp add: spec_ordered_iff example_compare)
  have n: "successively (spec_ordered ordinalCompare) [beta, gamma, omega]"
    by (simp add: spec_ordered_iff example_compare)
  have t: "tied ordinalCompare alpha alpha2" "tied ordinalCompare alpha alpha"
    "\<not> tied ordinalCompare alpha beta" "\<not> tied ordinalCompare alpha omega"
    by (simp_all add: tied_def example_names example_orders)
  have f: "filter (tied ordinalCompare alpha) [beta, alpha2, omega, alpha] = [alpha2, alpha]"
    by (simp add: t)
  have e: "prepareData_v8 ordinalCompare [omega, gamma, beta, omega2] = [omega2, beta, gamma, omega]"
    by (simp add: prepareData_v8_def engine_sort_def example_compare omega2_compare Let_def)
  note a = sort_idempotent_stable_where_consistent
    [OF c, where xs = "[beta, alpha2, omega, alpha]" and r = alpha]
  note b = sort_idempotent_stable_where_consistent
    [OF c, where xs = "[alpha2, alpha, beta]" and r = alpha]
  note d = sort_idempotent_stable_where_consistent
    [OF c, where xs = "[beta, gamma, omega]" and r = alpha]
  note g = sort_idempotent_stable_where_consistent
    [OF c, where xs = "[omega, gamma, beta, omega2]" and r = alpha]
  from a u1 have a1: "prepareData ordinalCompare [alpha2, alpha, omega, beta] = [alpha2, alpha, omega, beta]"
    by (simp only: p)
  from a u1 have a2:
    "filter (tied ordinalCompare alpha) (prepareData ordinalCompare [beta, alpha2, omega, alpha]) =
     [alpha2, alpha]"
    by (simp only: f)
  from a u1 have a3: "prepareData_v8 ordinalCompare [beta, alpha2, omega, alpha] = [alpha2, alpha, omega, beta]"
    by (simp only: p)
  from b u2 s have b1: "prepareData ordinalCompare [alpha2, alpha, beta] = [alpha2, alpha, beta]"
    by blast
  have l3: "length [beta, gamma, omega] < 64" by simp
  have l4: "length [omega, gamma, beta, omega2] < 64" by simp
  from d l3 n have d1: "prepareData_v8 ordinalCompare [beta, gamma, omega] = [beta, gamma, omega]"
    by blast
  from g l4 have "prepareData_v8 ordinalCompare (prepareData_v8 ordinalCompare [omega, gamma, beta, omega2]) =
      prepareData_v8 ordinalCompare [omega, gamma, beta, omega2]"
    by blast
  then have g1: "prepareData_v8 ordinalCompare [omega2, beta, gamma, omega] = [omega2, beta, gamma, omega]"
    by (simp only: e)
  show ?thesis
    using c u1 p a3 a1 t(1) a2 u2 s s' b1 l3 n d1 l4 e g1 by (intro conjI)
qed

text \<open>
  Counterexample to C8 as stated: two records named Omega with \<open>projectOrder\<close> 1, between
  them Gamma without \<open>projectOrder\<close> and Beta with \<open>projectOrder\<close> 2. Every record compares
  less than the one before it, the engine reverses the list, and the two records that tie
  come out in the other order. The comparison is not consistent on this list: Beta is not
  after Gamma, Gamma not after Omega, and Beta is after Omega.
\<close>

theorem engine_swaps_tied_counterexample:
  "consistent ordinalCompare \<and>
   tied ordinalCompare omega omega2 \<and>
   filter (tied ordinalCompare omega) [omega, gamma, beta, omega2] = [omega, omega2] \<and>
   prepareData_v8 ordinalCompare [omega, gamma, beta, omega2] = [omega2, beta, gamma, omega] \<and>
   filter (tied ordinalCompare omega) (prepareData_v8 ordinalCompare [omega, gamma, beta, omega2]) =
     [omega2, omega] \<and>
   prepareData ordinalCompare [omega, gamma, beta, omega2] = [gamma, omega, omega2, beta] \<and>
   \<not> consistent_on ordinalCompare [omega, gamma, beta, omega2]"
proof -
  have t: "tied ordinalCompare omega omega2" "tied ordinalCompare omega omega"
    "\<not> tied ordinalCompare omega gamma" "\<not> tied ordinalCompare omega beta"
    by (simp_all add: tied_def example_names example_orders omega2_fields)
  have e: "prepareData_v8 ordinalCompare [omega, gamma, beta, omega2] = [omega2, beta, gamma, omega]"
    by (simp add: prepareData_v8_def engine_sort_def example_compare omega2_compare Let_def)
  have m: "prepareData ordinalCompare [omega, gamma, beta, omega2] = [gamma, omega, omega2, beta]"
    by (simp add: prepareData_def array_sort_def omega2_compare)
  have c: "compareRequests ordinalCompare beta omega = 1"
    by (rule example_compare)
  have n: "\<not> consistent_on ordinalCompare [omega, gamma, beta, omega2]"
    by (simp add: consistent_on_def example_compare omega2_compare c)
  show ?thesis by (simp add: t e m n consistent_ordinalCompare)
qed

lemma example_distinct: "beta \<noteq> gamma" "beta \<noteq> omega" "gamma \<noteq> omega"
  by (simp_all add: beta_def gamma_def omega_def saved_request_def)

text \<open>No arrangement of the three records of the counterexample is ascending, so the
  failure does not depend on the sorting algorithm.\<close>

lemma no_arrangement_ascending:
  assumes "mset ys = mset [beta, gamma, omega]"
  shows "\<not> sorted_wrt (spec_ordered ordinalCompare) ys"
proof
  assume s: "sorted_wrt (spec_ordered ordinalCompare) ys"
  have n: "\<not> spec_ordered ordinalCompare beta omega" "\<not> spec_ordered ordinalCompare gamma beta"
    "\<not> spec_ordered ordinalCompare omega gamma"
    by (simp_all add: spec_ordered_def example_names example_orders)
  have "length ys = length [beta, gamma, omega]" using assms by (rule mset_eq_length)
  then have "length ys = Suc (Suc (Suc 0))" by simp
  then obtain p q r where ys: "ys = [p, q, r]"
    by (auto simp: length_Suc_conv)
  have mem: "set ys = {beta, gamma, omega}" using mset_eq_setD [OF assms] by simp
  have first: "x \<in> set ys \<Longrightarrow> x \<noteq> p \<Longrightarrow> spec_ordered ordinalCompare p x" for x
    using s ys by auto
  have "p \<in> set ys" using ys by simp
  then consider "p = beta" | "p = gamma" | "p = omega" unfolding mem by blast
  then show False
  proof cases
    case 1
    have "spec_ordered ordinalCompare p omega"
      by (rule first) (simp_all add: mem 1 example_distinct example_distinct [symmetric])
    with n(1) 1 show False by simp
  next
    case 2
    have "spec_ordered ordinalCompare p beta"
      by (rule first) (simp_all add: mem 2 example_distinct example_distinct [symmetric])
    with n(2) 2 show False by simp
  next
    case 3
    have "spec_ordered ordinalCompare p gamma"
      by (rule first) (simp_all add: mem 3 example_distinct example_distinct [symmetric])
    with n(3) 3 show False by simp
  qed
qed

section \<open>Deletions\<close>

lemma indexOf_from_found: "0 \<le> i \<Longrightarrow> (indexOf_from xs v i \<noteq> -1) = (v \<in> set xs)"
proof (induction xs arbitrary: i)
  case Nil
  then show ?case by simp
next
  case (Cons x xs)
  have "(indexOf_from xs v (i + 1) \<noteq> -1) = (v \<in> set xs)"
    using Cons.prems by (intro Cons.IH) simp
  with Cons.prems show ?case by auto
qed

lemma indexOf_found: "(indexOf xs v \<noteq> -1) = (v \<in> set xs)"
  by (simp add: indexOf_def indexOf_from_found)

lemma take_splice1: "n \<le> length xs \<Longrightarrow> take n (splice1 xs n) = take n xs"
  by (simp add: splice1_def)

lemma drop_splice1: "n \<le> length xs \<Longrightarrow> drop n (splice1 xs n) = drop (Suc n) xs"
  by (simp add: splice1_def)

lemma length_splice1: "n < length xs \<Longrightarrow> length (splice1 xs n) = length xs - 1"
  by (simp add: splice1_def)

lemma checkDeleted_loop_eq:
  "n \<le> length items \<Longrightarrow>
   checkDeleted_loop ids items (int n - 1) changed =
     (filter (\<lambda>x. doc_id x \<notin> set ids) (take n items) @ drop n items,
      changed \<or> (\<exists>x\<in>set (take n items). doc_id x \<in> set ids))"
proof (induction n arbitrary: items changed)
  case 0
  show ?case by (subst checkDeleted_loop.simps) simp
next
  case (Suc n)
  have n: "n < length items" using Suc.prems by simp
  have t: "take (Suc n) items = take n items @ [items ! n]"
    using n by (rule take_Suc_conv_app_nth)
  have d: "drop n items = items ! n # drop (Suc n) items"
    using n by (simp add: Cons_nth_drop_Suc)
  have i: "int (Suc n) - 1 = int n" by simp
  show ?case
  proof (cases "doc_id (items ! n) \<in> set ids")
    case True
    have "checkDeleted_loop ids items (int (Suc n) - 1) changed =
        checkDeleted_loop ids (splice1 items n) (int n - 1) True"
      unfolding i by (subst checkDeleted_loop.simps) (simp add: indexOf_found True)
    also have "\<dots> = (filter (\<lambda>x. doc_id x \<notin> set ids) (take n (splice1 items n)) @
        drop n (splice1 items n),
        True \<or> (\<exists>x\<in>set (take n (splice1 items n)). doc_id x \<in> set ids))"
      by (rule Suc.IH) (use n in \<open>simp add: length_splice1\<close>)
    finally show ?thesis
      using n True by (simp add: take_splice1 drop_splice1 t)
  next
    case False
    have "checkDeleted_loop ids items (int (Suc n) - 1) changed =
        checkDeleted_loop ids items (int n - 1) changed"
      unfolding i by (subst checkDeleted_loop.simps) (simp add: indexOf_found False)
    also have "\<dots> = (filter (\<lambda>x. doc_id x \<notin> set ids) (take n items) @ drop n items,
        changed \<or> (\<exists>x\<in>set (take n items). doc_id x \<in> set ids))"
      by (rule Suc.IH) (use n in simp)
    finally show ?thesis
      using False by (simp add: t d)
  qed
qed

lemma checkDeleted_spec: "checkDeleted ids st = spec_remove ids st"
proof (cases "data st")
  case None
  then show ?thesis by (simp add: checkDeleted_def spec_remove_def)
next
  case (Some items)
  have "checkDeleted_loop ids items (int (length items) - 1) False =
      (filter (\<lambda>x. doc_id x \<notin> set ids) items, \<exists>x\<in>set items. doc_id x \<in> set ids)"
    using checkDeleted_loop_eq [of "length items" items ids False] by simp
  then show ?thesis
    using Some by (auto simp: checkDeleted_def spec_remove_def list_ex_iff)
qed

lemma publishes_set_data: "publishes (events (set_data v st)) = Suc (publishes (events st))"
  by (simp add: set_data_def publishes_def)

lemma spec_remove_publishes:
  "publishes (events (spec_remove ids st)) =
     (if data (spec_remove ids st) = data st then publishes (events st)
      else Suc (publishes (events st)))"
proof (cases "data st")
  case None
  then show ?thesis by (simp add: spec_remove_def)
next
  case (Some items)
  show ?thesis
  proof (cases "list_ex (\<lambda>x. doc_id x \<in> set ids) items")
    case True
    then have "filter (\<lambda>x. doc_id x \<notin> set ids) items \<noteq> items"
      by (auto simp: list_ex_iff filter_id_conv)
    with Some True show ?thesis
      by (simp add: spec_remove_def publishes_set_data) (simp add: set_data_def)
  next
    case False
    with Some show ?thesis by (simp add: spec_remove_def)
  qed
qed

text \<open>
  Claim C6. A \<open>request-object-deleted\<close> event that is cancelable or carries no
  identifier changes nothing. Otherwise the loop of \<open>_checkDeleted\<close> removes every entry
  whose identifier matches, keeps the others in their order and publishes the new list
  exactly when an entry was removed; without a list, or without a match, nothing happens.
  \<open>request-objects-deleted\<close> does the same for all its identifiers, and a removal
  publishes once.
\<close>

theorem deleted_removes_matching:
  "(cancelable \<or> \<not> truthy rid \<longrightarrow> requestObjectDeleted cancelable rid st = st) \<and>
   (\<not> cancelable \<and> truthy rid \<longrightarrow>
      requestObjectDeleted cancelable rid st = spec_remove [the rid] st) \<and>
   (cancelable \<or> ids = None \<or> ids = Some [] \<longrightarrow> requestObjectsDeleted cancelable ids st = st) \<and>
   (\<not> cancelable \<and> ids \<noteq> None \<and> ids \<noteq> Some [] \<longrightarrow>
      requestObjectsDeleted cancelable ids st = spec_remove (the ids) st) \<and>
   publishes (events (spec_remove l st)) =
     (if data (spec_remove l st) = data st then publishes (events st)
      else Suc (publishes (events st)))"
proof (intro conjI impI)
  show "requestObjectDeleted cancelable rid st = st" if "cancelable \<or> \<not> truthy rid"
    using that by (auto simp: requestObjectDeleted_def)
  show "requestObjectDeleted cancelable rid st = spec_remove [the rid] st"
    if "\<not> cancelable \<and> truthy rid"
    using that by (simp add: requestObjectDeleted_def checkDeleted_spec)
  show "requestObjectsDeleted cancelable ids st = st"
    if "cancelable \<or> ids = None \<or> ids = Some []"
    using that by (auto simp: requestObjectsDeleted_def)
  show "requestObjectsDeleted cancelable ids st = spec_remove (the ids) st"
    if "\<not> cancelable \<and> ids \<noteq> None \<and> ids \<noteq> Some []"
  proof -
    from that obtain y where "ids = Some y" "y \<noteq> []" "\<not> cancelable" by auto
    then show ?thesis by (simp add: requestObjectsDeleted_def checkDeleted_spec)
  qed
  show "publishes (events (spec_remove l st)) =
     (if data (spec_remove l st) = data st then publishes (events st)
      else Suc (publishes (events st)))"
    by (rule spec_remove_publishes)
qed

text \<open>Witness for C6 on an element that shows Alpha, Beta and Gamma.\<close>

theorem deleted_removes_matching_witness:
  "requestObjectDeleted False (Some ''b'') listed =
     listed\<lparr>data := Some [alpha, gamma], events := [DataEvent (Some ''P1'') [alpha, gamma]]\<rparr> \<and>
   requestObjectDeleted False (Some ''zz'') listed = listed \<and>
   requestObjectDeleted True (Some ''b'') listed = listed \<and>
   requestObjectsDeleted False (Some [''c'', ''zz'', ''a'']) listed =
     listed\<lparr>data := Some [beta], events := [DataEvent (Some ''P1'') [beta]]\<rparr> \<and>
   requestObjectsDeleted False (Some []) listed = listed \<and>
   requestObjectsDeleted False (Some [''b'']) initial = initial \<and>
   publishes (events (spec_remove [''c'', ''zz'', ''a''] listed)) = 1"
proof -
  have t: "truthy (Some ''b'')" "truthy (Some ''zz'')" by (simp_all add: truthy_def)
  have d: "data listed = Some [alpha, beta, gamma]" "events listed = []"
    "projectId listed = Some ''P1''" "data initial = None"
    by (simp_all add: listed_def initial_def)
  have r: "spec_remove [''b''] listed =
      listed\<lparr>data := Some [alpha, gamma], events := [DataEvent (Some ''P1'') [alpha, gamma]]\<rparr>"
    "spec_remove [''zz''] listed = listed"
    "spec_remove [''c'', ''zz'', ''a''] listed =
      listed\<lparr>data := Some [beta], events := [DataEvent (Some ''P1'') [beta]]\<rparr>"
    "spec_remove [''b''] initial = initial"
    by (simp_all add: spec_remove_def d example_ids set_data_def)
  note a = deleted_removes_matching [of False "Some ''b''" listed "Some [''c'', ''zz'', ''a'']" "[''c'', ''zz'', ''a'']"]
  note b = deleted_removes_matching [of False "Some ''zz''" listed "Some []"]
  note c = deleted_removes_matching [of True "Some ''b''" listed "Some []"]
  note e = deleted_removes_matching [of False "Some ''b''" initial "Some [''b'']"]
  have "publishes (events (spec_remove [''c'', ''zz'', ''a''] listed)) = 1"
    using a by (simp add: r d publishes_def)
  with a b c e t show ?thesis by (simp add: r)
qed



lemma run_Nil: "run lc [] st = st"
  by (simp add: run_def)

lemma run_Cons: "run lc (x # xs) st = run lc xs (step lc x st)"
  by (simp add: run_def)

lemma set_projectId_P1:
  "set_projectId lc (store_get (Online project_docs)) (pouch (Online saved_docs)) (Some ''P1'') initial =
     \<lparr>projectId = Some ''P1'', data = Some [scoped alpha, scoped beta], querying = Some False,
      fullQuery = False,
      events = [QueryingEvent True, QueryingEvent False,
                DataEvent (Some ''P1'') [scoped alpha, scoped beta]]\<rparr>"
  by (simp add: set_projectId_def autoQuery_def truthy_def query_P1 initial_def setDataScope_def
      set_data_def set_querying_def)

lemma set_projectId_P1_full:
  "set_projectId lc (store_get (Online project_docs)) (pouch (Online saved_docs)) (Some ''P1'')
     (initial\<lparr>fullQuery := True\<rparr>) =
     \<lparr>projectId = Some ''P1'', data = Some [alpha, beta], querying = Some False,
      fullQuery = True,
      events = [QueryingEvent True, QueryingEvent False, DataEvent (Some ''P1'') [alpha, beta]]\<rparr>"
  by (simp add: set_projectId_def autoQuery_def truthy_def query_P1 initial_def setDataScope_def
      set_data_def set_querying_def)



section \<open>Changes\<close>

lemma findIndex_from_upsert:
  "0 \<le> i \<Longrightarrow>
   (findIndex_from (\<lambda>item. doc_id item = doc_id r) xs i = -1 \<and> upsert r xs = xs @ [r]) \<or>
   (i \<le> findIndex_from (\<lambda>item. doc_id item = doc_id r) xs i \<and>
    upsert r xs = xs[nat (findIndex_from (\<lambda>item. doc_id item = doc_id r) xs i - i) := r])"
proof (induction xs arbitrary: i)
  case Nil
  then show ?case by simp
next
  case (Cons x xs)
  show ?case
  proof (cases "doc_id x = doc_id r")
    case True
    then show ?thesis by simp
  next
    case False
    let ?j = "findIndex_from (\<lambda>item. doc_id item = doc_id r) xs (i + 1)"
    have ih: "(?j = -1 \<and> upsert r xs = xs @ [r]) \<or>
        (i + 1 \<le> ?j \<and> upsert r xs = xs[nat (?j - (i + 1)) := r])"
      using Cons.prems by (intro Cons.IH) simp
    then show ?thesis
    proof
      assume "?j = -1 \<and> upsert r xs = xs @ [r]"
      with False show ?thesis by simp
    next
      assume a: "i + 1 \<le> ?j \<and> upsert r xs = xs[nat (?j - (i + 1)) := r]"
      then have "nat (?j - i) = Suc (nat (?j - (i + 1)))" by linarith
      with a False show ?thesis by simp
    qed
  qed
qed

lemma findIndex_upsert:
  "(if findIndex (\<lambda>item. doc_id item = doc_id r) items = -1 then items @ [r]
    else items[nat (findIndex (\<lambda>item. doc_id item = doc_id r) items) := r]) = upsert r items"
  using findIndex_from_upsert [of 0 r items] by (auto simp: findIndex_def)

lemma is_related_iff:
  "is_related request pid \<longleftrightarrow>
     (\<exists>p. pid = Some p \<and>
        ((legacyProject request = Some p \<and> p \<noteq> []) \<or>
         (\<exists>ps. projects request = Some ps \<and> p \<in> set ps)))"
  by (cases pid; cases "projects request"; cases "legacyProject request")
     (auto simp: is_related_def related_projects_def indexOf_found truthy_def)

lemma set_upsert: "r \<in> set (upsert r xs)"
  by (induction xs) simp_all

lemma changed_related:
  assumes "\<not> cancelable" and "is_related request (projectId st)"
  shows "requestObjectChanged lc cancelable request oldId st =
     set_data (case data st of
                 None \<Rightarrow> [request]
               | Some items \<Rightarrow> if items = [] then [request]
                               else prepareData lc (upsert request items)) st"
proof (cases "data st")
  case None
  with assms show ?thesis by (simp add: requestObjectChanged_def)
next
  case (Some items)
  show ?thesis
  proof (cases "items = []")
    case True
    with assms Some show ?thesis by (simp add: requestObjectChanged_def)
  next
    case False
    with assms Some show ?thesis
      by (simp add: requestObjectChanged_def Let_def findIndex_upsert)
  qed
qed

text \<open>
  Claim C5, as amended. A record is related to the current project when its non-empty
  \<open>legacyProject\<close> equals \<open>projectId\<close> or its \<open>projects\<close> list holds it. A cancelable or
  unrelated \<open>request-object-changed\<close> event leaves the element as it is, with no
  \<open>data\<close> event. Otherwise the handler publishes the list holding only the record when
  there is no list or an empty one, and else the list in which the record has replaced
  the first entry with the record's own identifier, or has been appended, sorted and not
  reduced: the record itself is on the published list. The previous identifier carried by
  the event is not consulted.
\<close>

theorem changed_upserts_by_own_id:
  "(is_related request pid \<longleftrightarrow>
      (\<exists>p. pid = Some p \<and>
         ((legacyProject request = Some p \<and> p \<noteq> []) \<or>
          (\<exists>ps. projects request = Some ps \<and> p \<in> set ps)))) \<and>
   (cancelable \<or> \<not> is_related request (projectId st) \<longrightarrow>
      requestObjectChanged lc cancelable request oldId st = st) \<and>
   (\<not> cancelable \<and> is_related request (projectId st) \<longrightarrow>
      requestObjectChanged lc cancelable request oldId st =
        set_data (case data st of
                    None \<Rightarrow> [request]
                  | Some items \<Rightarrow> if items = [] then [request]
                                  else prepareData lc (upsert request items)) st \<and>
      request \<in> set (the (data (requestObjectChanged lc cancelable request oldId st)))) \<and>
   requestObjectChanged lc cancelable request oldId st =
     requestObjectChanged lc cancelable request None st"
proof (intro conjI impI)
  show "is_related request pid \<longleftrightarrow>
      (\<exists>p. pid = Some p \<and>
         ((legacyProject request = Some p \<and> p \<noteq> []) \<or>
          (\<exists>ps. projects request = Some ps \<and> p \<in> set ps)))"
    by (rule is_related_iff)
  show "requestObjectChanged lc cancelable request oldId st = st"
    if "cancelable \<or> \<not> is_related request (projectId st)"
    using that by (auto simp: requestObjectChanged_def)
  show "requestObjectChanged lc cancelable request oldId st =
        set_data (case data st of
                    None \<Rightarrow> [request]
                  | Some items \<Rightarrow> if items = [] then [request]
                                  else prepareData lc (upsert request items)) st"
    if "\<not> cancelable \<and> is_related request (projectId st)"
    using that by (intro changed_related) simp_all
  show "request \<in> set (the (data (requestObjectChanged lc cancelable request oldId st)))"
    if h: "\<not> cancelable \<and> is_related request (projectId st)"
  proof -
    have "request \<in> set (prepareData lc (upsert request items))" for items
      using mset_prepareData [of lc "upsert request items"] set_upsert [of request items]
      by (metis set_mset_mset)
    then show ?thesis
      using h changed_related [of cancelable request st lc oldId]
      by (simp add: set_data_def split: option.splits)
  qed
  show "requestObjectChanged lc cancelable request oldId st =
     requestObjectChanged lc cancelable request None st"
    by (simp add: requestObjectChanged_def)
qed

lemma renamed_fields:
  "doc_id renamed = ''a-new''" "name_or_empty renamed = ''Alpha''" "projectOrder renamed = Some 1"
  "legacyProject renamed = Some ''P1''" "projects renamed = None"
  by (simp_all add: renamed_def alpha_def saved_request_def name_or_empty_def truthy_def)

lemma example_projects:
  "legacyProject alpha = Some ''P1''" "projects alpha = None"
  "legacyProject beta = Some ''P1''" "projects beta = None"
  "legacyProject legacy1 = None" "projects legacy1 = None"
  by (simp_all add: alpha_def beta_def legacy1_def saved_request_def)

text \<open>
  Counterexample to C5 as stated: Alpha is on the list under \<open>a\<close>; the event carries the
  changed record under \<open>a-new\<close> with previous identifier \<open>a\<close>. The entry \<open>a\<close> stays
  and the record is added beside it.
\<close>

theorem previous_id_counterexample:
  "run ordinalCompare
     [SetFullQuery True,
      SetProjectId (Some ''P1'') (store_get (Online project_docs)) (pouch (Online saved_docs)),
      Changed False renamed (Some ''a'')] initial =
     \<lparr>projectId = Some ''P1'', data = Some [alpha, renamed, beta], querying = Some False,
      fullQuery = True,
      events = [QueryingEvent True, QueryingEvent False, DataEvent (Some ''P1'') [alpha, beta],
                DataEvent (Some ''P1'') [alpha, renamed, beta]]\<rparr> \<and>
   doc_id alpha = ''a'' \<and> doc_id renamed = ''a-new''"
proof -
  have r: "is_related renamed (Some ''P1'')"
    by (simp add: is_related_def related_projects_def renamed_fields truthy_def indexOf_def)
  have f: "findIndex (\<lambda>item. doc_id item = ''a-new'') [alpha, beta] = -1"
    by (simp add: findIndex_def example_ids)
  have c: "compareRequests ordinalCompare beta renamed = 1"
    "compareRequests ordinalCompare alpha renamed = 0"
    by (simp_all add: compareRequests_def order_gt_def order_lt_def example_names example_orders
        renamed_fields)
  have s: "prepareData ordinalCompare [alpha, beta, renamed] = [alpha, renamed, beta]"
    by (simp add: prepareData_def array_sort_def c)
  show ?thesis
    by (simp add: run_Cons run_Nil set_projectId_P1_full [unfolded initial_def, simplified]
        initial_def requestObjectChanged_def r f s set_data_def example_ids renamed_fields Let_def)
qed

text \<open>Witness for C5: an update that reorders, an unrelated record, a cancelable event,
  a record related through \<open>projects\<close>, and an element without a list.\<close>

theorem changed_upserts_by_own_id_witness:
  "is_related (beta\<lparr>projectOrder := Some 0\<rparr>) (projectId listed) \<and>
   requestObjectChanged ordinalCompare False (beta\<lparr>projectOrder := Some 0\<rparr>) None listed =
     listed\<lparr>data := Some [beta\<lparr>projectOrder := Some 0\<rparr>, alpha, gamma],
       events := [DataEvent (Some ''P1'') [beta\<lparr>projectOrder := Some 0\<rparr>, alpha, gamma]]\<rparr> \<and>
   \<not> is_related legacy1 (projectId listed) \<and>
   requestObjectChanged ordinalCompare False legacy1 None listed = listed \<and>
   requestObjectChanged ordinalCompare True beta None listed = listed \<and>
   is_related (legacy1\<lparr>projects := Some [''P0'', ''P1'']\<rparr>) (Some ''P1'') \<and>
   requestObjectChanged ordinalCompare False alpha None (initial\<lparr>projectId := Some ''P1''\<rparr>) =
     initial\<lparr>projectId := Some ''P1'', data := Some [alpha],
       events := [DataEvent (Some ''P1'') [alpha]]\<rparr>"
proof -
  let ?b = "beta\<lparr>projectOrder := Some 0\<rparr>"
  have p: "projectId listed = Some ''P1''" "data listed = Some [alpha, beta, gamma]"
    "events listed = []"
    by (simp_all add: listed_def)
  have r1: "is_related ?b (projectId listed)"
    using changed_upserts_by_own_id [of ?b "projectId listed"]
    by (simp add: p example_projects)
  have r2: "\<not> is_related legacy1 (projectId listed)"
    using changed_upserts_by_own_id [of legacy1 "projectId listed"]
    by (simp add: p example_projects)
  have r3: "is_related (legacy1\<lparr>projects := Some [''P0'', ''P1'']\<rparr>) (Some ''P1'')"
    using changed_upserts_by_own_id [of "legacy1\<lparr>projects := Some [''P0'', ''P1'']\<rparr>" "Some ''P1''"]
    by simp
  have r4: "is_related alpha (projectId (initial\<lparr>projectId := Some ''P1''\<rparr>))"
    using changed_upserts_by_own_id [of alpha "Some ''P1''"]
    by (simp add: example_projects)
  have b: "name_or_empty ?b = ''Beta''" "projectOrder ?b = Some 0"
    by (simp_all add: name_or_empty_def truthy_def beta_def saved_request_def)
  have c: "compareRequests ordinalCompare ?b gamma = -1"
    "compareRequests ordinalCompare alpha ?b = 1"
    "compareRequests ordinalCompare alpha gamma = -1"
    by (simp_all add: compareRequests_def order_gt_def order_lt_def example_names example_orders b)
  have s: "prepareData ordinalCompare [alpha, ?b, gamma] = [?b, alpha, gamma]"
    by (simp add: prepareData_def array_sort_def c)
  have 1: "requestObjectChanged ordinalCompare False ?b None listed =
      listed\<lparr>data := Some [?b, alpha, gamma], events := [DataEvent (Some ''P1'') [?b, alpha, gamma]]\<rparr>"
    using changed_upserts_by_own_id [of ?b "projectId listed" False listed ordinalCompare None] r1
    by (simp add: p s set_data_def example_ids)
  have 2: "requestObjectChanged ordinalCompare False legacy1 None listed = listed"
    using changed_upserts_by_own_id [of legacy1 "projectId listed" False listed ordinalCompare None] r2
    by simp
  have 3: "requestObjectChanged ordinalCompare True beta None listed = listed"
    using changed_upserts_by_own_id [of beta "projectId listed" True listed ordinalCompare None]
    by simp
  have 4: "requestObjectChanged ordinalCompare False alpha None (initial\<lparr>projectId := Some ''P1''\<rparr>) =
     initial\<lparr>projectId := Some ''P1'', data := Some [alpha],
       events := [DataEvent (Some ''P1'') [alpha]]\<rparr>"
    using changed_upserts_by_own_id [of alpha "Some ''P1''" False "initial\<lparr>projectId := Some ''P1''\<rparr>"
        ordinalCompare None] r4
    by (simp add: initial_def set_data_def)
  from r1 r2 r3 1 2 3 4 show ?thesis by simp
qed

section \<open>No identifier twice\<close>

lemma distinct_ids_mset:
  "mset xs = mset ys \<Longrightarrow> distinct (map f xs) = distinct (map f ys)"
proof -
  assume "mset xs = mset ys"
  then have "mset (map f xs) = mset (map f ys)" by simp
  then show ?thesis by (rule mset_eq_imp_distinct_iff)
qed

lemma distinct_ids_prepareData:
  "distinct (map doc_id (prepareData lc xs)) = distinct (map doc_id xs)"
  by (rule distinct_ids_mset) (rule mset_prepareData)

lemma ids_setDataScope: "map doc_id (setDataScope fq xs) = map doc_id xs"
  by (simp add: setDataScope_def scoped_def comp_def)

lemma ids_upsert: "set (map doc_id (upsert r xs)) = insert (doc_id r) (set (map doc_id xs))"
  by (induction xs) auto

lemma distinct_ids_upsert:
  "distinct (map doc_id xs) \<Longrightarrow> distinct (map doc_id (upsert r xs))"
proof (induction xs)
  case Nil
  then show ?case by simp
next
  case (Cons x xs)
  show ?case
  proof (cases "doc_id x = doc_id r")
    case True
    with Cons.prems show ?thesis by simp
  next
    case False
    have "distinct (map doc_id (upsert r xs))" using Cons by simp
    moreover have "doc_id x \<notin> set (map doc_id (upsert r xs))"
      using Cons.prems False by (simp only: ids_upsert) auto
    ultimately show ?thesis using False by simp
  qed
qed

lemma filter_rows_kept:
  "filter_rows pid rows = Inr kept \<Longrightarrow>
     kept = filter (\<lambda>item. str_indexOf (the (row_id item)) pid \<noteq> -1) rows \<and>
     (\<forall>item\<in>set rows. row_id item \<noteq> None)"
proof (induction rows arbitrary: kept)
  case Nil
  then show ?case by simp
next
  case (Cons item rest)
  from Cons.prems obtain i where i: "row_id item = Some i"
    by (cases "row_id item") simp_all
  from Cons.prems i obtain k where k: "filter_rows pid rest = Inr k"
    by (cases "filter_rows pid rest") simp_all
  from Cons.IH [OF k] Cons.prems i k show ?case by auto
qed

lemma get_each_ids:
  "get_each sdb rows = Inr docs \<Longrightarrow> list_all (returns_doc_asked sdb) rows \<Longrightarrow>
   \<forall>item\<in>set rows. row_id item \<noteq> None \<Longrightarrow>
   map doc_id docs = map (\<lambda>item. the (row_id item)) rows"
proof (induction rows arbitrary: docs)
  case Nil
  then show ?case by simp
next
  case (Cons item rest)
  from Cons.prems(3) obtain i where i: "row_id item = Some i" by auto
  from Cons.prems(1) i obtain d where d: "db_get sdb i = Inr d"
    by (cases "db_get sdb i") simp_all
  from Cons.prems(1) i d obtain ds where ds: "get_each sdb rest = Inr ds"
    by (cases "get_each sdb rest") simp_all
  have docs: "docs = d # ds" using Cons.prems(1) i d ds by simp
  have "doc_id d = i" using Cons.prems(2) i d by (simp add: returns_doc_asked_def)
  moreover have "map doc_id ds = map (\<lambda>item. the (row_id item)) rest"
    using Cons.IH [OF ds] Cons.prems(2,3) by simp
  ultimately show ?case using docs i by simp
qed

lemma map_filter_all_some:
  "\<forall>x\<in>set xs. f x \<noteq> None \<Longrightarrow> List.map_filter f xs = map (\<lambda>x. the (f x)) xs"
  by (induction xs) auto

lemma tryLegacy_distinct:
  assumes "tryLegacy lc sdb pid st = (Inr rs, st')"
    and "db_allDocs sdb = Inr (Rows rows)"
    and "distinct (List.map_filter row_id rows)"
    and "list_all (returns_doc_asked sdb) rows"
  shows "distinct (map doc_id rs)"
proof -
  from assms(1,2) obtain kept where kept: "filter_rows pid rows = Inr kept"
    by (cases "filter_rows pid rows") (simp_all add: tryLegacy_def filterRequests_def)
  from assms(1,2) kept obtain docs where docs: "get_each sdb kept = Inr docs"
    by (cases "get_each sdb kept") (simp_all add: tryLegacy_def filterRequests_def)
  have rs: "rs = setDataScope (fullQuery st) (prepareData lc docs)"
    using assms(1,2) kept docs
    by (simp add: tryLegacy_def filterRequests_def sorted_in_place_eq Let_def)
  note k = filter_rows_kept [OF kept]
  have all: "\<forall>item\<in>set rows. row_id item \<noteq> None" using k by simp
  have sub: "set kept \<subseteq> set rows" using k by auto
  have "map doc_id docs = map (\<lambda>item. the (row_id item)) kept"
    using docs
  proof (rule get_each_ids)
    show "list_all (returns_doc_asked sdb) kept"
      using assms(4) sub by (auto simp: list_all_iff)
    show "\<forall>item\<in>set kept. row_id item \<noteq> None" using all sub by auto
  qed
  moreover have "distinct (map (\<lambda>item. the (row_id item)) rows)"
    using assms(3) map_filter_all_some [OF all] by simp
  then have "distinct (map (\<lambda>item. the (row_id item)) kept)"
    using k by (simp add: distinct_map_filter)
  ultimately have "distinct (map doc_id docs)" by simp
  then show ?thesis by (simp add: rs ids_setDataScope distinct_ids_prepareData)
qed

lemma query_try_distinct:
  assumes "duplicate_free pdb sdb pid" and "query_try lc pdb sdb pid st = (Inr rs, st')"
  shows "distinct (map doc_id rs)"
proof -
  from assms(2) obtain keys where keys: "readProjectRequests pdb pid = Inr keys"
    by (cases "readProjectRequests pdb pid") (simp_all add: query_try_def)
  show ?thesis
  proof (cases "keys = []")
    case True
    then have t: "tryLegacy lc sdb pid st = (Inr rs, st')"
      using assms(2) keys by (simp add: query_try_def)
    have "\<exists>rows. db_allDocs sdb = Inr (Rows rows)"
    proof (cases "db_allDocs sdb")
      case (Inl cause)
      with t show ?thesis by (simp add: tryLegacy_def)
    next
      case (Inr resp)
      with t show ?thesis by (cases resp) (simp_all add: tryLegacy_def filterRequests_def)
    qed
    then obtain rows where rows: "db_allDocs sdb = Inr (Rows rows)" ..
    with assms(1) keys True have "distinct (List.map_filter row_id rows)"
      "list_all (returns_doc_asked sdb) rows"
      by (simp_all add: duplicate_free_def)
    with t rows show ?thesis by (rule tryLegacy_distinct)
  next
    case False
    with assms(2) keys obtain found where found: "getProjectRequest sdb keys = Inr found"
      by (cases "getProjectRequest sdb keys") (simp_all add: query_try_def)
    have "\<exists>rows. db_allDocs_keys sdb keys = Inr (Rows rows) \<and> found = collect_docs rows []"
    proof (cases "db_allDocs_keys sdb keys")
      case (Inl cause)
      with found show ?thesis by (simp add: getProjectRequest_def)
    next
      case (Inr resp)
      with found show ?thesis by (cases resp) (simp_all add: getProjectRequest_def)
    qed
    then obtain rows where rows: "db_allDocs_keys sdb keys = Inr (Rows rows)"
      "found = collect_docs rows []" by blast
    with assms(1) keys False have "distinct (map doc_id found)"
      by (simp add: duplicate_free_def)
    moreover have "rs = setDataScope (fullQuery st) (prepareData lc found)"
      using assms(2) keys False found by (simp add: query_try_def Let_def)
    ultimately show ?thesis by (simp add: ids_setDataScope distinct_ids_prepareData)
  qed
qed

lemma data_ids_set_data: "data_ids (set_data v st) = map doc_id v"
  by (simp add: data_ids_def set_data_def)

lemma data_ids_frame: "data st' = data st \<Longrightarrow> data_ids st' = data_ids st"
  by (simp add: data_ids_def)

lemma query_distinct:
  assumes "duplicate_free pdb sdb pid" and "query lc pdb sdb (Some pid) st = (Inr rs, st')"
  shows "distinct (map doc_id rs)"
proof (cases "pid = []")
  case True
  with assms(2) show ?thesis by (simp add: query_def truthy_def)
next
  case False
  obtain res s where q: "query_try lc pdb sdb pid (set_querying True st) = (res, s)"
    by (cases "query_try lc pdb sdb pid (set_querying True st)")
  have unfold: "query lc pdb sdb (Some pid) st =
      (case res of Inl cause \<Rightarrow> query_catch cause s | Inr result \<Rightarrow> (Inr result, s))"
    using False q by (cases res) (simp_all add: query_with_id)
  show ?thesis
  proof (cases res)
    case (Inl cause)
    with unfold assms(2) have "rs = []" by (simp add: query_catch_def Let_def)
    then show ?thesis by simp
  next
    case (Inr r)
    with unfold assms(2) have "rs = r" by simp
    with q Inr assms(1) show ?thesis by (intro query_try_distinct [of pdb sdb pid lc _ rs s]) simp_all
  qed
qed

lemma set_projectId_distinct:
  assumes "case v of None \<Rightarrow> True | Some pid \<Rightarrow> duplicate_free pdb sdb pid"
    and "distinct (data_ids st)"
  shows "distinct (data_ids (set_projectId lc pdb sdb v st))"
proof (cases "projectId st = v")
  case True
  then have "set_projectId lc pdb sdb v st = st" by (simp add: set_projectId_def)
  with assms(2) show ?thesis by simp
next
  case False
  let ?st = "st\<lparr>projectId := v\<rparr>"
  have st: "data_ids ?st = data_ids st" by (simp add: data_ids_def)
  have s: "set_projectId lc pdb sdb v st = autoQuery lc pdb sdb v ?st"
    using False by (simp add: set_projectId_def)
  show ?thesis
  proof (cases "truthy v")
    case False
    then have "autoQuery lc pdb sdb v ?st = ?st" by (simp add: autoQuery_def)
    with s st assms(2) show ?thesis by simp
  next
    case True
    then obtain pid where pid: "v = Some pid" by (cases v) (simp_all add: truthy_def)
    obtain res st' where q: "query lc pdb sdb v ?st = (res, st')"
      by (cases "query lc pdb sdb v ?st")
    show ?thesis
    proof (cases res)
      case (Inl cause)
      then have "autoQuery lc pdb sdb v ?st = st'"
        using True q by (simp add: autoQuery_def)
      moreover have "data st' = data ?st"
        using query_frame [of lc pdb sdb v ?st] q by simp
      ultimately show ?thesis using s st assms(2) by (simp add: data_ids_def)
    next
      case (Inr rs)
      then have a: "autoQuery lc pdb sdb v ?st = set_data rs st'"
        using True q by (simp add: autoQuery_def)
      have "duplicate_free pdb sdb pid" using assms(1) pid by simp
      then have "distinct (map doc_id rs)"
        using q Inr pid by (intro query_distinct [of pdb sdb pid lc ?st rs st']) simp_all
      then show ?thesis by (simp only: s a data_ids_set_data)
    qed
  qed
qed

lemma changed_distinct:
  assumes "distinct (data_ids st)"
  shows "distinct (data_ids (requestObjectChanged lc cancelable request oldId st))"
proof (cases "cancelable \<or> \<not> is_related request (projectId st)")
  case True
  then have "requestObjectChanged lc cancelable request oldId st = st"
    by (auto simp: requestObjectChanged_def)
  with assms show ?thesis by simp
next
  case False
  then have "requestObjectChanged lc cancelable request oldId st =
     set_data (case data st of
                 None \<Rightarrow> [request]
               | Some items \<Rightarrow> if items = [] then [request]
                               else prepareData lc (upsert request items)) st"
    by (intro changed_related) simp_all
  moreover have "distinct (map doc_id (case data st of
                 None \<Rightarrow> [request]
               | Some items \<Rightarrow> if items = [] then [request]
                               else prepareData lc (upsert request items)))"
  proof (cases "data st")
    case None
    then show ?thesis by simp
  next
    case (Some items)
    with assms have "distinct (map doc_id items)" by (simp add: data_ids_def)
    then have "distinct (map doc_id (prepareData lc (upsert request items)))"
      by (simp only: distinct_ids_prepareData distinct_ids_upsert)
    with Some show ?thesis by simp
  qed
  ultimately show ?thesis by (simp only: data_ids_set_data)
qed

lemma spec_remove_distinct:
  assumes "distinct (data_ids st)"
  shows "distinct (data_ids (spec_remove ids st))"
proof (cases "data st")
  case None
  then have "spec_remove ids st = st" by (simp add: spec_remove_def)
  with assms show ?thesis by simp
next
  case (Some items)
  show ?thesis
  proof (cases "list_ex (\<lambda>x. doc_id x \<in> set ids) items")
    case True
    with Some have "spec_remove ids st = set_data (filter (\<lambda>x. doc_id x \<notin> set ids) items) st"
      by (simp add: spec_remove_def)
    moreover have "distinct (map doc_id items)" using assms Some by (simp add: data_ids_def)
    ultimately show ?thesis by (simp only: data_ids_set_data distinct_map_filter)
  next
    case False
    with Some have "spec_remove ids st = st" by (simp add: spec_remove_def)
    with assms show ?thesis by simp
  qed
qed

lemma deleted_distinct:
  assumes "distinct (data_ids st)"
  shows "distinct (data_ids (requestObjectDeleted cancelable rid st))"
proof (cases "cancelable \<or> \<not> truthy rid")
  case True
  then have "requestObjectDeleted cancelable rid st = st"
    by (auto simp: requestObjectDeleted_def)
  with assms show ?thesis by simp
next
  case False
  then have "requestObjectDeleted cancelable rid st = spec_remove [the rid] st"
    by (simp add: requestObjectDeleted_def checkDeleted_spec)
  with assms show ?thesis by (simp only: spec_remove_distinct)
qed

lemma bulk_deleted_distinct:
  assumes "distinct (data_ids st)"
  shows "distinct (data_ids (requestObjectsDeleted cancelable ids st))"
proof (cases "cancelable \<or> ids = None \<or> ids = Some []")
  case True
  then have "requestObjectsDeleted cancelable ids st = st"
    by (auto simp: requestObjectsDeleted_def)
  with assms show ?thesis by simp
next
  case False
  then obtain l where "ids = Some l" "l \<noteq> []" "\<not> cancelable" by auto
  then have "requestObjectsDeleted cancelable ids st = spec_remove l st"
    by (simp add: requestObjectsDeleted_def checkDeleted_spec)
  with assms show ?thesis by (simp only: spec_remove_distinct)
qed

lemma step_distinct:
  assumes "op_ok x" and "distinct (data_ids st)"
  shows "distinct (data_ids (step lc x st))"
proof (cases x)
  case (SetProjectId v pdb sdb)
  then have "case v of None \<Rightarrow> True | Some pid \<Rightarrow> duplicate_free pdb sdb pid"
    using assms(1) by simp
  then have "distinct (data_ids (set_projectId lc pdb sdb v st))"
    using assms(2) by (rule set_projectId_distinct)
  with SetProjectId show ?thesis by simp
next
  case (SetFullQuery b)
  have "data_ids (st\<lparr>fullQuery := b\<rparr>) = data_ids st" by (simp add: data_ids_def)
  with assms(2) SetFullQuery show ?thesis by simp
next
  case (Query pid pdb sdb)
  have "data (snd (query lc pdb sdb pid st)) = data st"
    using query_frame [of lc pdb sdb pid st] by simp
  then have "data_ids (snd (query lc pdb sdb pid st)) = data_ids st" by (rule data_ids_frame)
  with assms(2) Query show ?thesis by simp
next
  case (Changed cancelable request oldId)
  with assms(2) show ?thesis by (simp only: step.simps changed_distinct)
next
  case (Deleted cancelable rid)
  with assms(2) show ?thesis by (simp only: step.simps deleted_distinct)
next
  case (BulkDeleted cancelable ids)
  with assms(2) show ?thesis by (simp only: step.simps bulk_deleted_distinct)
qed

lemma run_distinct:
  "\<forall>x\<in>set ops. op_ok x \<Longrightarrow> distinct (data_ids st) \<Longrightarrow> distinct (data_ids (run lc ops st))"
proof (induction ops arbitrary: st)
  case Nil
  then show ?case by (simp add: run_Nil)
next
  case (Cons x ops)
  have "distinct (data_ids (step lc x st))"
    using Cons.prems by (intro step_distinct) simp_all
  then show ?case using Cons by (simp add: run_Cons)
qed

text \<open>
  Claim C7. In every state reached from the initial one by \<open>projectId\<close> and \<open>fullQuery\<close>
  assignments, direct queries and the three notifications, the published list holds no
  identifier twice, provided the store answers each lookup without duplicates.
\<close>

theorem data_never_duplicates:
  assumes "\<forall>x\<in>set ops. op_ok x"
  shows "distinct (data_ids (run lc ops initial))"
  using assms by (rule run_distinct) (simp add: data_ids_def initial_def)

lemma duplicate_free_P1:
  "duplicate_free (store_get (Online project_docs)) (pouch (Online saved_docs)) ''P1''"
proof -
  have "readProjectRequests (store_get (Online project_docs)) ''P1'' = Inr [''b'', ''gone'', ''d'', ''a'']"
    by (simp add: readProjectRequests_def store_get_def project_docs_def)
  moreover have "db_allDocs_keys (pouch (Online saved_docs)) [''b'', ''gone'', ''d'', ''a''] =
      Inr (Rows (map (key_row saved_docs) [''b'', ''gone'', ''d'', ''a'']))"
    by (simp add: pouch_def store_allDocs_keys_def)
  moreover have "resolved saved_docs [''b'', ''gone'', ''d'', ''a''] = [beta, alpha]"
    by (simp add: resolved_def resolve_def saved_docs_def)
  ultimately show ?thesis
    by (simp add: duplicate_free_def collect_key_rows del: list.map) (simp add: example_ids)
qed

lemma duplicate_free_P2:
  "duplicate_free (store_get (Online project_docs)) (pouch (Online saved_docs)) ''P2''"
proof -
  have "readProjectRequests (store_get (Online project_docs)) ''P2'' = Inr []"
    by (simp add: readProjectRequests_def store_get_def project_docs_def)
  moreover have "db_allDocs (pouch (Online saved_docs)) =
      Inr (Rows [\<lparr>row_id = Some ''P2/x'', row_error = False, row_doc = None\<rparr>,
                 \<lparr>row_id = Some ''P3/y'', row_error = False, row_doc = None\<rparr>,
                 \<lparr>row_id = Some ''a'', row_error = False, row_doc = None\<rparr>,
                 \<lparr>row_id = Some ''b'', row_error = False, row_doc = None\<rparr>,
                 \<lparr>row_id = Some ''c'', row_error = False, row_doc = None\<rparr>])"
    by (simp add: pouch_def store_allDocs_def saved_docs_def listing_row_def)
  moreover have "db_get (pouch (Online saved_docs)) ''P2/x'' = Inr legacy1"
    "db_get (pouch (Online saved_docs)) ''P3/y'' = Inr legacy2"
    "db_get (pouch (Online saved_docs)) ''a'' = Inr alpha"
    "db_get (pouch (Online saved_docs)) ''b'' = Inr beta"
    "db_get (pouch (Online saved_docs)) ''c'' = Inr gamma"
    by (simp_all add: pouch_def store_get_def saved_docs_def)
  moreover have "doc_id legacy1 = ''P2/x''" "doc_id legacy2 = ''P3/y''"
    by (simp_all add: legacy1_def legacy2_def saved_request_def)
  ultimately show ?thesis
    by (simp add: duplicate_free_def returns_doc_asked_def example_ids)
qed

text \<open>Witness for C7: a lookup, an added record, a deletion and the fallback lookup.\<close>

theorem data_never_duplicates_witness:
  "op_ok (SetProjectId (Some ''P1'') (store_get (Online project_docs)) (pouch (Online saved_docs))) \<and>
   op_ok (Changed False gamma None) \<and> op_ok (Deleted False (Some ''b'')) \<and>
   op_ok (SetProjectId (Some ''P2'') (store_get (Online project_docs)) (pouch (Online saved_docs))) \<and>
   data_ids (run ordinalCompare
     [SetProjectId (Some ''P1'') (store_get (Online project_docs)) (pouch (Online saved_docs)),
      Changed False gamma None, Deleted False (Some ''b'')] initial) = [''a'', ''c''] \<and>
   distinct (data_ids (run ordinalCompare
     [SetProjectId (Some ''P1'') (store_get (Online project_docs)) (pouch (Online saved_docs)),
      Changed False gamma None, Deleted False (Some ''b''),
      SetProjectId (Some ''P2'') (store_get (Online project_docs)) (pouch (Online saved_docs))]
     initial))"
proof -
  let ?p = "SetProjectId (Some ''P1'') (store_get (Online project_docs)) (pouch (Online saved_docs))"
  let ?q = "SetProjectId (Some ''P2'') (store_get (Online project_docs)) (pouch (Online saved_docs))"
  have ok: "\<forall>x\<in>set [?p, Changed False gamma None, Deleted False (Some ''b''), ?q]. op_ok x"
    by (simp add: duplicate_free_P1 duplicate_free_P2)
  have r: "is_related gamma (Some ''P1'')"
    by (simp add: is_related_iff gamma_def saved_request_def)
  have n: "name_or_empty (scoped alpha) = ''Alpha''" "name_or_empty (scoped beta) = ''Beta''"
    "projectOrder (scoped alpha) = None" "projectOrder (scoped beta) = None"
    "doc_id (scoped alpha) = ''a''" "doc_id (scoped beta) = ''b''"
    by (simp_all add: scoped_def name_or_empty_def truthy_def alpha_def beta_def saved_request_def)
  have c: "compareRequests ordinalCompare (scoped beta) gamma = -1"
    "compareRequests ordinalCompare (scoped alpha) (scoped beta) = -1"
    by (simp_all add: compareRequests_def order_gt_def order_lt_def n example_names example_orders)
  have s: "prepareData ordinalCompare [scoped alpha, scoped beta, gamma] =
      [scoped alpha, scoped beta, gamma]"
    by (simp add: prepareData_def array_sort_def c)
  have ch: "requestObjectChanged ordinalCompare False gamma None
      (set_projectId ordinalCompare (store_get (Online project_docs)) (pouch (Online saved_docs))
         (Some ''P1'') initial) =
      set_data [scoped alpha, scoped beta, gamma]
        (set_projectId ordinalCompare (store_get (Online project_docs)) (pouch (Online saved_docs))
         (Some ''P1'') initial)"
    using changed_related [of False gamma "set_projectId ordinalCompare (store_get (Online project_docs))
        (pouch (Online saved_docs)) (Some ''P1'') initial" ordinalCompare None] r
    by (simp add: set_projectId_P1 n example_ids s)
  have "data_ids (run ordinalCompare [?p, Changed False gamma None, Deleted False (Some ''b'')] initial) =
      [''a'', ''c'']"
    by (simp add: run_Cons run_Nil ch requestObjectDeleted_def truthy_def checkDeleted_spec
        spec_remove_def set_data_def data_ids_def n example_ids)
  moreover have "distinct (data_ids (run ordinalCompare
      [?p, Changed False gamma None, Deleted False (Some ''b''), ?q] initial))"
    using ok by (rule data_never_duplicates)
  ultimately show ?thesis using ok by simp
qed

end
